theory Spec2Isabelle
  imports Main "HOL-Library.Word"
begin

unbundle bit_operations_syntax

section \<open>The cover network of mockturtle (networks/cover.hpp)\<close>

text \<open>
  A shallow embedding of \<^verbatim>\<open>cover_network\<close>. The shared storage is one record that every
  operation takes and returns. Node and signal identifiers are vector indices
  (\<^verbatim>\<open>uint64_t\<close>), modelled as \<open>nat\<close>; values the interface passes as \<^verbatim>\<open>uint32_t\<close> are
  \<open>32 word\<close> or reduced modulo \<open>2 ^ 32\<close>. An operation returns \<open>None\<close> when the C++ code
  would index a vector out of range or fail an assertion (undefined behaviour or abort).
\<close>

subsection \<open>Data model\<close>

text \<open>
  Modelled from the spec: the declaration of \<^verbatim>\<open>kitty::cube\<close> is not part of the given
  sources. A cube is a bit pattern and a care mask of equal width over at most 32
  positions; \<^verbatim>\<open>compute\<close> reads them as the members \<^verbatim>\<open>_bits\<close> and \<^verbatim>\<open>_mask\<close> and builds its
  input cube from two \<^verbatim>\<open>uint32_t\<close>.
\<close>

record cube =
  cbits :: "32 word"
  cmask :: "32 word"

type_synonym cover_type = "cube list \<times> bool"

text \<open>
  Modelled from the spec: \<^verbatim>\<open>mixed_fanin_node\<close> (storage.hpp), the base of
  \<^verbatim>\<open>cover_storage_node\<close>, is not part of the given sources. A node is an ordered list of
  child references without complement and four scratch fields, named in cover.hpp:
  \<^verbatim>\<open>data[0].h1\<close> fan-out size, \<^verbatim>\<open>data[0].h2\<close> application value, \<^verbatim>\<open>data[1].h1\<close> index of the
  cover, \<^verbatim>\<open>data[1].h2\<close> visited flag. Each is one half of a 64-bit word; the accessors
  \<^verbatim>\<open>fanout_size\<close>, \<^verbatim>\<open>value\<close> and \<^verbatim>\<open>set_visited\<close> pass them as \<^verbatim>\<open>uint32_t\<close>.
\<close>

record cover_storage_node =
  children :: "nat list"
  data0_h1 :: "32 word"
  data0_h2 :: "32 word"
  data1_h1 :: "32 word"
  data1_h2 :: "32 word"

text \<open>
  Modelled from the spec: the templates \<^verbatim>\<open>storage\<close> (storage.hpp) and \<^verbatim>\<open>network_events\<close>
  (events.hpp) are not part of the given sources. The storage is the node sequence, the
  input and output lists and the hash-consing table, with the \<^verbatim>\<open>cover_storage_data\<close> of
  cover.hpp. Two nodes are equal as hash keys when their children and their
  \<^verbatim>\<open>data[1].h1\<close> agree (\<^verbatim>\<open>operator==\<close> of \<^verbatim>\<open>cover_storage_node\<close>), so the table is a map from
  such pairs. The listeners are called synchronously and do not change the network; the
  last two fields record, in order, the arguments with which the listeners of \<^verbatim>\<open>on_add\<close>
  and \<^verbatim>\<open>on_modified\<close> have been called.
\<close>

record network =
  nodes :: "cover_storage_node list"
  inputs :: "nat list"
  outputs :: "nat list"
  hash :: "(nat list \<times> 32 word) \<rightharpoonup> nat"
  covers :: "cover_type list"
  num_pis :: "32 word"
  num_pos :: "32 word"
  latches :: "8 word list"
  trav_id :: "32 word"
  on_add_calls :: "nat list"
  on_modified_calls :: "(nat \<times> nat list) list"

definition empty_node :: cover_storage_node where
  "empty_node = \<lparr>children = [], data0_h1 = 0, data0_h2 = 0, data1_h1 = 0, data1_h2 = 0\<rparr>"

definition node_key :: "cover_storage_node \<Rightarrow> nat list \<times> 32 word" where
  "node_key n = (children n, data1_h1 n)"

text \<open>\<^verbatim>\<open>cover_storage_data::insert\<close>: appends, returns the old size.\<close>

definition insert_cover :: "cover_type \<Rightarrow> network \<Rightarrow> nat \<times> network" where
  "insert_cover cv st = (length (covers st), st\<lparr>covers := covers st @ [cv]\<rparr>)"

text \<open>The default \<^verbatim>\<open>kitty::cube()\<close> and the two-argument constructor.\<close>

definition cube_dc :: cube where
  "cube_dc = \<lparr>cbits = 0, cmask = 0\<rparr>"

definition mk_cube :: "32 word \<Rightarrow> 32 word \<Rightarrow> cube" where
  "mk_cube b m = \<lparr>cbits = b, cmask = m\<rparr>"

text \<open>
  Modelled from the spec: the string constructor of \<^verbatim>\<open>kitty::cube\<close> is not part of the
  given sources. The gate table of the specification writes a cube as a pattern over
  the inputs with the first input as the most significant bit; \<^verbatim>\<open>1\<close> and \<^verbatim>\<open>0\<close> are care
  positions, any other character is a don't care.
\<close>

fun cube_of_string_from :: "string \<Rightarrow> cube \<Rightarrow> cube" where
  "cube_of_string_from [] c = c"
| "cube_of_string_from (x # xs) c =
     cube_of_string_from xs
       \<lparr>cbits = push_bit 1 (cbits c) OR (if x = CHR ''1'' then 1 else 0),
        cmask = push_bit 1 (cmask c) OR (if x = CHR ''1'' \<or> x = CHR ''0'' then 1 else 0)\<rparr>"

definition cube_of_string :: "string \<Rightarrow> cube" where
  "cube_of_string s = cube_of_string_from s cube_dc"

subsection \<open>Construction and constants\<close>

text \<open>
  A fresh network. The storage constructor, not part of the given sources, creates
  node 0 (the specification reserves the indices 0 and 1 for the constants); \<^verbatim>\<open>_init\<close>
  registers the two constant covers, appends node 1 and enters both nodes in the hash
  table.
\<close>

definition init :: network where
  "init =
     \<lparr>nodes = [empty_node\<lparr>data1_h1 := 0\<rparr>, empty_node\<lparr>data1_h1 := 1\<rparr>],
      inputs = [], outputs = [],
      hash = [([], 0) \<mapsto> 0, ([], 1) \<mapsto> 1],
      covers = [([cube_dc], False), ([cube_dc], True)],
      num_pis = 0, num_pos = 0, latches = [], trav_id = 0,
      on_add_calls = [], on_modified_calls = []\<rparr>"

definition get_constant :: "bool \<Rightarrow> nat" where
  "get_constant v = (if v then 1 else 0)"

definition create_pi :: "network \<Rightarrow> nat \<times> network" where
  "create_pi st =
     (let index_node = length (nodes st);
          (index_covers, st1) = insert_cover ([cube_of_string ''1''], True) st;
          node_in = empty_node\<lparr>data1_h1 := of_nat index_node\<rparr>
      in (index_node,
          st1\<lparr>nodes := nodes st1 @ [node_in],
              hash := (hash st1)(node_key node_in \<mapsto> index_node),
              inputs := inputs st1 @ [index_node],
              num_pis := num_pis st1 + 1\<rparr>))"

definition incr_fanout :: "nat \<Rightarrow> network \<Rightarrow> network" where
  "incr_fanout f st =
     st\<lparr>nodes := (nodes st)[f := (nodes st ! f)\<lparr>data0_h1 := data0_h1 (nodes st ! f) + 1\<rparr>]\<rparr>"

definition create_po :: "nat \<Rightarrow> network \<Rightarrow> (nat \<times> network) option" where
  "create_po f st =
     (if f < length (nodes st)
      then let st1 = incr_fanout f st;
               po_index = length (outputs st1)
           in Some (po_index mod 2 ^ 32,
                    st1\<lparr>outputs := outputs st1 @ [f], num_pos := num_pos st1 + 1\<rparr>)
      else None)"

definition create_ro :: "network \<Rightarrow> nat \<times> network" where
  "create_ro st =
     (let index = length (nodes st) mod 2 ^ 32;
          st1 = st\<lparr>nodes := nodes st @ [empty_node], inputs := inputs st @ [index]\<rparr>
      in (index,
          st1\<lparr>nodes := (nodes st1)[index := (nodes st1 ! index)\<lparr>data1_h1 := of_nat index\<rparr>]\<rparr>))"

definition create_ri :: "nat \<Rightarrow> 8 word \<Rightarrow> network \<Rightarrow> (nat \<times> network) option" where
  "create_ri f reset st =
     (if f < length (nodes st)
      then let st1 = incr_fanout f st;
               ri_index = length (outputs st1)
           in Some (ri_index mod 2 ^ 32,
                    st1\<lparr>outputs := outputs st1 @ [f], latches := latches st1 @ [reset]\<rparr>)
      else None)"

subsection \<open>Node values\<close>

definition set_value :: "nat \<Rightarrow> 32 word \<Rightarrow> network \<Rightarrow> network option" where
  "set_value n v st =
     (if n < length (nodes st)
      then Some (st\<lparr>nodes := (nodes st)[n := (nodes st ! n)\<lparr>data0_h2 := v\<rparr>]\<rparr>)
      else None)"

subsection \<open>Arbitrary functions\<close>

text \<open>
  \<^verbatim>\<open>_create_cover_node\<close>. The cover is inserted first; the key of the lookup carries the
  index this insertion returned, truncated to the 32 bits of \<^verbatim>\<open>data[1].h1\<close>.
\<close>

definition create_cover_node_internal ::
  "nat list \<Rightarrow> cover_type \<Rightarrow> network \<Rightarrow> (nat \<times> network) option" where
  "create_cover_node_internal chs new_cover st =
     (let (literal, st1) = insert_cover new_cover st;
          node = empty_node\<lparr>children := chs, data1_h1 := of_nat literal\<rparr>
      in case hash st1 (node_key node) of
           Some existing \<Rightarrow> Some (existing, st1)
         | None \<Rightarrow>
             let index = length (nodes st1);
                 st2 = st1\<lparr>nodes := nodes st1 @ [node],
                           hash := (hash st1)(node_key node \<mapsto> index)\<rparr>
             in if list_all (\<lambda>c. c < length (nodes st2)) chs
                then case set_value index 0 (fold incr_fanout chs st2) of
                       None \<Rightarrow> None
                     | Some st3 \<Rightarrow>
                         Some (index, st3\<lparr>on_add_calls := on_add_calls st3 @ [index]\<rparr>)
                else None)"

definition create_cover_node ::
  "nat list \<Rightarrow> cover_type \<Rightarrow> network \<Rightarrow> (nat \<times> network) option" where
  "create_cover_node chs new_cover st =
     (if length chs = 0 then Some (get_constant (snd new_cover), st)
      else create_cover_node_internal chs new_cover st)"

subsection \<open>Primitive gates\<close>

definition create_buf :: "nat \<Rightarrow> network \<Rightarrow> (nat \<times> network) option" where
  "create_buf a st = Some (a, st)"

definition create_not :: "nat \<Rightarrow> network \<Rightarrow> (nat \<times> network) option" where
  "create_not a = create_cover_node_internal [a] ([cube_of_string ''0''], True)"

definition create_and :: "nat \<Rightarrow> nat \<Rightarrow> network \<Rightarrow> (nat \<times> network) option" where
  "create_and a b = create_cover_node_internal [a, b] ([cube_of_string ''11''], True)"

definition create_nand :: "nat \<Rightarrow> nat \<Rightarrow> network \<Rightarrow> (nat \<times> network) option" where
  "create_nand a b = create_cover_node_internal [a, b] ([cube_of_string ''11''], False)"

definition create_or :: "nat \<Rightarrow> nat \<Rightarrow> network \<Rightarrow> (nat \<times> network) option" where
  "create_or a b = create_cover_node_internal [a, b] ([cube_of_string ''00''], False)"

definition create_nor :: "nat \<Rightarrow> nat \<Rightarrow> network \<Rightarrow> (nat \<times> network) option" where
  "create_nor a b = create_cover_node_internal [a, b] ([cube_of_string ''00''], True)"

definition create_lt :: "nat \<Rightarrow> nat \<Rightarrow> network \<Rightarrow> (nat \<times> network) option" where
  "create_lt a b = create_cover_node_internal [a, b] ([cube_of_string ''01''], True)"

definition create_le :: "nat \<Rightarrow> nat \<Rightarrow> network \<Rightarrow> (nat \<times> network) option" where
  "create_le a b = create_cover_node_internal [a, b] ([cube_of_string ''10''], False)"

definition create_gt :: "nat \<Rightarrow> nat \<Rightarrow> network \<Rightarrow> (nat \<times> network) option" where
  "create_gt a b = create_cover_node_internal [a, b] ([cube_of_string ''10''], True)"

definition create_ge :: "nat \<Rightarrow> nat \<Rightarrow> network \<Rightarrow> (nat \<times> network) option" where
  "create_ge a b = create_cover_node_internal [a, b] ([cube_of_string ''01''], False)"

definition create_xor :: "nat \<Rightarrow> nat \<Rightarrow> network \<Rightarrow> (nat \<times> network) option" where
  "create_xor a b =
     create_cover_node_internal [a, b] ([cube_of_string ''01'', cube_of_string ''10''], True)"

definition create_xnor :: "nat \<Rightarrow> nat \<Rightarrow> network \<Rightarrow> (nat \<times> network) option" where
  "create_xnor a b =
     create_cover_node_internal [a, b] ([cube_of_string ''00'', cube_of_string ''11''], True)"

definition create_maj :: "nat \<Rightarrow> nat \<Rightarrow> nat \<Rightarrow> network \<Rightarrow> (nat \<times> network) option" where
  "create_maj a b c =
     create_cover_node_internal [a, b, c]
       ([cube_of_string ''011'', cube_of_string ''101'', cube_of_string ''110'',
         cube_of_string ''111''], True)"

definition create_ite :: "nat \<Rightarrow> nat \<Rightarrow> nat \<Rightarrow> network \<Rightarrow> (nat \<times> network) option" where
  "create_ite a b c =
     create_cover_node_internal [a, b, c]
       ([cube_of_string ''11-'', cube_of_string ''0-1''], True)"

definition create_xor3 :: "nat \<Rightarrow> nat \<Rightarrow> nat \<Rightarrow> network \<Rightarrow> (nat \<times> network) option" where
  "create_xor3 a b c =
     create_cover_node_internal [a, b, c]
       ([cube_of_string ''001'', cube_of_string ''010'', cube_of_string ''100'',
         cube_of_string ''111''], True)"

subsection \<open>Gates from truth tables\<close>

text \<open>
  Modelled from the spec: \<^verbatim>\<open>kitty::dynamic_truth_table\<close> and its functions are not part of
  the given sources. A truth table is the list of its output bits, bit \<open>i\<close> at position
  \<open>i\<close>, with the counts of its 1-outputs and 0-outputs; reading a bit beyond the table
  is undefined.
\<close>

definition count_ones :: "bool list \<Rightarrow> nat" where
  "count_ones function = length (filter (\<lambda>b. b) function)"

definition count_zeros :: "bool list \<Rightarrow> nat" where
  "count_zeros function = length (filter (\<lambda>b. \<not> b) function)"

definition is_const0 :: "bool list \<Rightarrow> bool" where
  "is_const0 function = list_all (\<lambda>b. \<not> b) function"

text \<open>
  The enumeration loop of the truth-table overload of \<^verbatim>\<open>create_cover_node\<close>:
  \<^verbatim>\<open>for ( uint32_t i{ 0 }; i < pow( 2, children.size() ); ++i )\<close>. The counter is a 32-bit
  word compared with the real number \<open>2 ^ k\<close>. The result is \<open>None\<close> when the loop never
  ends, \<open>Some None\<close> when it reads beyond the truth table, \<open>Some (Some cubes)\<close> when it
  returns.
\<close>

partial_function (option) enumerate_cubes ::
  "nat \<Rightarrow> bool list \<Rightarrow> bool \<Rightarrow> 32 word \<Rightarrow> 32 word \<Rightarrow> cube list \<Rightarrow> cube list option option"
where
  "enumerate_cubes k function is_sop msk i acc =
     (if unat i < 2 ^ k
      then (if unat i < length function
            then enumerate_cubes k function is_sop msk (i + 1)
                   (if function ! unat i = is_sop then acc @ [mk_cube i msk] else acc)
            else Some None)
      else Some (Some acc))"

definition fanin_mask :: "nat \<Rightarrow> 32 word" where
  "fanin_mask k = ((\<lambda>msk. msk OR push_bit 1 msk) ^^ (k - 1)) 1"

definition create_cover_node_tt ::
  "nat list \<Rightarrow> bool list \<Rightarrow> network \<Rightarrow> (nat \<times> network) option option" where
  "create_cover_node_tt chs function st =
     (if length chs = 0 then Some (Some (get_constant (\<not> is_const0 function), st))
      else
        let is_sop = (count_ones function \<le> count_zeros function);
            msk = fanin_mask (length chs)
        in case enumerate_cubes (length chs) function is_sop msk 0 [] of
             None \<Rightarrow> None
           | Some None \<Rightarrow> Some None
           | Some (Some cubes) \<Rightarrow> Some (create_cover_node_internal chs (cubes, is_sop) st))"

subsection \<open>N-ary gates\<close>

text \<open>
  Modelled from the spec: \<^verbatim>\<open>tree_reduce\<close> (utils/algorithm.hpp) is not part of the given
  sources. The specification describes a pairwise fold through the binary builder,
  seeded with the identity constant, in which an empty operand list returns the seed
  and a single operand is returned verbatim; any grouping is allowed, here the list is
  split in the middle and the left half is built first.
\<close>

function tree_reduce ::
  "nat list \<Rightarrow> nat \<Rightarrow> (nat \<Rightarrow> nat \<Rightarrow> network \<Rightarrow> (nat \<times> network) option) \<Rightarrow> network
     \<Rightarrow> (nat \<times> network) option" where
  "tree_reduce [] seed op2 st = Some (seed, st)"
| "tree_reduce [x] seed op2 st = Some (x, st)"
| "tree_reduce [x, y] seed op2 st = op2 x y st"
| "tree_reduce (x # y # z # zs) seed op2 st =
     (case tree_reduce (take (length (x # y # z # zs) div 2) (x # y # z # zs)) seed op2 st of
        None \<Rightarrow> None
      | Some (l, st1) \<Rightarrow>
          (case tree_reduce (drop (length (x # y # z # zs) div 2) (x # y # z # zs)) seed op2 st1 of
             None \<Rightarrow> None
           | Some (r, st2) \<Rightarrow> op2 l r st2))"
  by pat_completeness auto
termination
  by (relation "measure (\<lambda>(fs, seed, op2, st). length fs)") auto

definition create_nary_and :: "nat list \<Rightarrow> network \<Rightarrow> (nat \<times> network) option" where
  "create_nary_and fs = tree_reduce fs (get_constant True) create_and"

definition create_nary_or :: "nat list \<Rightarrow> network \<Rightarrow> (nat \<times> network) option" where
  "create_nary_or fs = tree_reduce fs (get_constant False) create_or"

definition create_nary_xor :: "nat list \<Rightarrow> network \<Rightarrow> (nat \<times> network) option" where
  "create_nary_xor fs = tree_reduce fs (get_constant False) create_xor"

subsection \<open>Restructuring\<close>

text \<open>
  The inner loop of \<^verbatim>\<open>substitute_node\<close> over the children of node \<open>i\<close>, from position \<open>j\<close>
  with \<open>r\<close> positions to go. At a match the child list is copied as it is at that
  moment, the child is overwritten, the fan-out of the new node is incremented and the
  \<^verbatim>\<open>on_modified\<close> listeners are called.
\<close>

fun rewrite_children :: "nat \<Rightarrow> nat \<Rightarrow> nat \<Rightarrow> nat \<Rightarrow> nat \<Rightarrow> network \<Rightarrow> network option" where
  "rewrite_children old_node new_signal i j 0 st = Some st"
| "rewrite_children old_node new_signal i j (Suc r) st =
     (if children (nodes st ! i) ! j = old_node
      then
        let old_children = children (nodes st ! i);
            st1 = st\<lparr>nodes := (nodes st)
                      [i := (nodes st ! i)\<lparr>children := (children (nodes st ! i))[j := new_signal]\<rparr>]\<rparr>
        in if new_signal < length (nodes st1)
           then rewrite_children old_node new_signal i (Suc j) r
                  ((incr_fanout new_signal st1)
                     \<lparr>on_modified_calls := on_modified_calls st1 @ [(i, old_children)]\<rparr>)
           else None
      else rewrite_children old_node new_signal i (Suc j) r st)"

fun rewrite_parents :: "nat \<Rightarrow> nat \<Rightarrow> nat \<Rightarrow> nat \<Rightarrow> network \<Rightarrow> network option" where
  "rewrite_parents old_node new_signal i 0 st = Some st"
| "rewrite_parents old_node new_signal i (Suc r) st =
     (case rewrite_children old_node new_signal i 0 (length (children (nodes st ! i))) st of
        None \<Rightarrow> None
      | Some st1 \<Rightarrow> rewrite_parents old_node new_signal (Suc i) r st1)"

fun rewrite_outputs :: "nat \<Rightarrow> nat \<Rightarrow> nat \<Rightarrow> nat \<Rightarrow> network \<Rightarrow> network option" where
  "rewrite_outputs old_node new_signal j 0 st = Some st"
| "rewrite_outputs old_node new_signal j (Suc r) st =
     (if outputs st ! j = old_node
      then
        let st1 = st\<lparr>outputs := (outputs st)[j := new_signal]\<rparr>
        in if new_signal < length (nodes st1)
           then rewrite_outputs old_node new_signal (Suc j) r (incr_fanout new_signal st1)
           else None
      else rewrite_outputs old_node new_signal (Suc j) r st)"

text \<open>
  The scan of the arena counts with a 32-bit \<^verbatim>\<open>unsigned\<close>; with \<open>2 ^ 32\<close> nodes or more
  the counter wraps and the scan does not end, which is \<open>None\<close> here as well.
\<close>

definition substitute_node :: "nat \<Rightarrow> nat \<Rightarrow> network \<Rightarrow> network option" where
  "substitute_node old_node new_signal st =
     (if length (nodes st) < 2 ^ 32
      then
        case rewrite_parents old_node new_signal 0 (length (nodes st)) st of
          None \<Rightarrow> None
        | Some st1 \<Rightarrow>
            (case rewrite_outputs old_node new_signal 0 (length (outputs st1)) st1 of
               None \<Rightarrow> None
             | Some st2 \<Rightarrow>
                 if old_node < length (nodes st2)
                 then Some (st2\<lparr>nodes := (nodes st2)
                              [old_node := (nodes st2 ! old_node)\<lparr>data0_h1 := 0\<rparr>]\<rparr>)
                 else None)
      else None)"

subsection \<open>Structural and functional properties\<close>

definition size_ntk :: "network \<Rightarrow> nat" where
  "size_ntk st = length (nodes st) mod 2 ^ 32"

definition fanin_size :: "nat \<Rightarrow> network \<Rightarrow> nat option" where
  "fanin_size n st =
     (if n < length (nodes st) then Some (length (children (nodes st ! n)) mod 2 ^ 32) else None)"

definition fanout_size :: "nat \<Rightarrow> network \<Rightarrow> 32 word option" where
  "fanout_size n st = (if n < length (nodes st) then Some (data0_h1 (nodes st ! n)) else None)"

definition node_cover :: "nat \<Rightarrow> network \<Rightarrow> cover_type option" where
  "node_cover n st =
     (if n < length (nodes st) \<and> unat (data1_h1 (nodes st ! n)) < length (covers st)
      then Some (covers st ! unat (data1_h1 (nodes st ! n)))
      else None)"

subsection \<open>Simulation\<close>

text \<open>The test of both \<^verbatim>\<open>compute\<close> overloads on one cube, and their scan of the cubes.\<close>

definition cube_hit :: "cube \<Rightarrow> cube \<Rightarrow> bool" where
  "cube_hit cb cb_input \<longleftrightarrow> (cbits cb AND cmask cb) = (cbits cb_input AND cmask cb)"

fun scan_cubes :: "cube list \<Rightarrow> cube \<Rightarrow> bool \<Rightarrow> bool" where
  "scan_cubes [] cb_input polarity = (\<not> polarity)"
| "scan_cubes (cb # cbs) cb_input polarity =
     (if cube_hit cb cb_input then polarity else scan_cubes cbs cb_input polarity)"

text \<open>The loop of the single-assignment \<^verbatim>\<open>compute\<close> over the input values.\<close>

fun fold_values :: "bool list \<Rightarrow> 32 word \<Rightarrow> 32 word \<Rightarrow> 32 word \<times> 32 word" where
  "fold_values [] index msk = (index, msk)"
| "fold_values (b # bs) index msk =
     fold_values bs (push_bit 1 index XOR (if b then 1 else 0)) (push_bit 1 msk OR 1)"

definition compute :: "nat \<Rightarrow> bool list \<Rightarrow> network \<Rightarrow> bool option" where
  "compute n vals st =
     (case node_cover n st of
        None \<Rightarrow> None
      | Some (cubes, polarity) \<Rightarrow>
          (case fold_values vals 0 0 of
             (index, msk) \<Rightarrow> Some (scan_cubes cubes (mk_cube index msk) polarity)))"

text \<open>
  The vectorized \<^verbatim>\<open>compute\<close>: a simulation vector is the list of its bits. The loop over
  the fanins builds the pattern of bit position \<open>i\<close>, fanin \<open>j\<close> at bit \<open>j\<close>. The two
  assertions, a shift by more than 31 and vectors of different widths are \<open>None\<close>; the
  counter of the bit positions is a 32-bit word.
\<close>

fun fold_fanins :: "bool list list \<Rightarrow> nat \<Rightarrow> nat \<Rightarrow> 32 word \<Rightarrow> 32 word \<Rightarrow> 32 word \<times> 32 word" where
  "fold_fanins [] i j pattern msk = (pattern, msk)"
| "fold_fanins (t # ts) i j pattern msk =
     fold_fanins ts i (Suc j) (pattern OR push_bit j (if t ! i then 1 else 0))
       (msk OR push_bit j 1)"

definition result_bit :: "cover_type \<Rightarrow> bool list list \<Rightarrow> nat \<Rightarrow> bool" where
  "result_bit cubes_cover tts i =
     (case fold_fanins tts i 0 0 0 of
        (pattern, msk) \<Rightarrow> scan_cubes (fst cubes_cover) (mk_cube pattern msk) (snd cubes_cover))"

definition compute_tt :: "nat \<Rightarrow> bool list list \<Rightarrow> network \<Rightarrow> bool list option" where
  "compute_tt n tts st =
     (if n < length (nodes st)
      then
        let nfanin = length (children (nodes st ! n))
        in if 0 < nfanin \<and> length tts = nfanin \<and> nfanin \<le> 32
              \<and> list_all (\<lambda>t. length t = length (hd tts)) tts
           then (case node_cover n st of
                   None \<Rightarrow> None
                 | Some cubes_cover \<Rightarrow>
                     let num_bits = length (hd tts)
                     in Some (map (result_bit cubes_cover tts) [0..<num_bits mod 2 ^ 32]
                              @ replicate (num_bits - num_bits mod 2 ^ 32) False))
           else None
      else None)"

subsection \<open>Custom node values and visited flags\<close>

definition clear_values :: "network \<Rightarrow> network" where
  "clear_values st = st\<lparr>nodes := map (\<lambda>n. n\<lparr>data0_h2 := 0\<rparr>) (nodes st)\<rparr>"

definition value_of :: "nat \<Rightarrow> network \<Rightarrow> 32 word option" where
  "value_of n st = (if n < length (nodes st) then Some (data0_h2 (nodes st ! n)) else None)"

definition incr_value :: "nat \<Rightarrow> network \<Rightarrow> (32 word \<times> network) option" where
  "incr_value n st =
     (if n < length (nodes st)
      then Some (data0_h2 (nodes st ! n),
                 st\<lparr>nodes := (nodes st)[n := (nodes st ! n)\<lparr>data0_h2 := data0_h2 (nodes st ! n) + 1\<rparr>]\<rparr>)
      else None)"

definition decr_value :: "nat \<Rightarrow> network \<Rightarrow> (32 word \<times> network) option" where
  "decr_value n st =
     (if n < length (nodes st)
      then Some (data0_h2 (nodes st ! n) - 1,
                 st\<lparr>nodes := (nodes st)[n := (nodes st ! n)\<lparr>data0_h2 := data0_h2 (nodes st ! n) - 1\<rparr>]\<rparr>)
      else None)"

definition clear_visited :: "network \<Rightarrow> network" where
  "clear_visited st = st\<lparr>nodes := map (\<lambda>n. n\<lparr>data1_h2 := 0\<rparr>) (nodes st)\<rparr>"

definition visited :: "nat \<Rightarrow> network \<Rightarrow> 32 word option" where
  "visited n st = (if n < length (nodes st) then Some (data1_h2 (nodes st ! n)) else None)"

definition set_visited :: "nat \<Rightarrow> 32 word \<Rightarrow> network \<Rightarrow> network option" where
  "set_visited n v st =
     (if n < length (nodes st)
      then Some (st\<lparr>nodes := (nodes st)[n := (nodes st ! n)\<lparr>data1_h2 := v\<rparr>]\<rparr>)
      else None)"

definition incr_trav_id :: "network \<Rightarrow> network" where
  "incr_trav_id st = st\<lparr>trav_id := trav_id st + 1\<rparr>"

subsection \<open>Sequences of calls\<close>

text \<open>
  The calls of the public interface that change the storage, and the value each returns
  (0 for a call that returns nothing).
\<close>

datatype api_call =
    Create_pi
  | Create_po nat
  | Create_ro
  | Create_ri nat "8 word"
  | Create_not nat
  | Create_and nat nat
  | Create_nand nat nat
  | Create_or nat nat
  | Create_nor nat nat
  | Create_lt nat nat
  | Create_le nat nat
  | Create_gt nat nat
  | Create_ge nat nat
  | Create_xor nat nat
  | Create_xnor nat nat
  | Create_maj nat nat nat
  | Create_ite nat nat nat
  | Create_xor3 nat nat nat
  | Create_cover_node "nat list" "cube list" bool
  | Substitute_node nat nat
  | Clear_values
  | Set_value nat "32 word"
  | Incr_value nat
  | Decr_value nat
  | Clear_visited
  | Set_visited nat "32 word"
  | Incr_trav_id

fun perform :: "api_call \<Rightarrow> network \<Rightarrow> (nat \<times> network) option" where
  "perform Create_pi st = Some (create_pi st)"
| "perform (Create_po f) st = create_po f st"
| "perform Create_ro st = Some (create_ro st)"
| "perform (Create_ri f reset) st = create_ri f reset st"
| "perform (Create_not a) st = create_not a st"
| "perform (Create_and a b) st = create_and a b st"
| "perform (Create_nand a b) st = create_nand a b st"
| "perform (Create_or a b) st = create_or a b st"
| "perform (Create_nor a b) st = create_nor a b st"
| "perform (Create_lt a b) st = create_lt a b st"
| "perform (Create_le a b) st = create_le a b st"
| "perform (Create_gt a b) st = create_gt a b st"
| "perform (Create_ge a b) st = create_ge a b st"
| "perform (Create_xor a b) st = create_xor a b st"
| "perform (Create_xnor a b) st = create_xnor a b st"
| "perform (Create_maj a b c) st = create_maj a b c st"
| "perform (Create_ite a b c) st = create_ite a b c st"
| "perform (Create_xor3 a b c) st = create_xor3 a b c st"
| "perform (Create_cover_node chs cubes polarity) st = create_cover_node chs (cubes, polarity) st"
| "perform (Substitute_node old_node new_signal) st =
     map_option (Pair 0) (substitute_node old_node new_signal st)"
| "perform Clear_values st = Some (0, clear_values st)"
| "perform (Set_value n v) st = map_option (Pair 0) (set_value n v st)"
| "perform (Incr_value n) st = map_option (apfst unat) (incr_value n st)"
| "perform (Decr_value n) st = map_option (apfst unat) (decr_value n st)"
| "perform Clear_visited st = Some (0, clear_visited st)"
| "perform (Set_visited n v) st = map_option (Pair 0) (set_visited n v st)"
| "perform Incr_trav_id st = Some (0, incr_trav_id st)"

fun run :: "api_call list \<Rightarrow> network \<Rightarrow> network option" where
  "run [] st = Some st"
| "run (c # cs) st = (case perform c st of None \<Rightarrow> None | Some (r, st1) \<Rightarrow> run cs st1)"

text \<open>The operand signals of a primitive-gate call; \<open>None\<close> for every other call.\<close>

fun gate_operands :: "api_call \<Rightarrow> nat list option" where
  "gate_operands (Create_not a) = Some [a]"
| "gate_operands (Create_and a b) = Some [a, b]"
| "gate_operands (Create_nand a b) = Some [a, b]"
| "gate_operands (Create_or a b) = Some [a, b]"
| "gate_operands (Create_nor a b) = Some [a, b]"
| "gate_operands (Create_lt a b) = Some [a, b]"
| "gate_operands (Create_le a b) = Some [a, b]"
| "gate_operands (Create_gt a b) = Some [a, b]"
| "gate_operands (Create_ge a b) = Some [a, b]"
| "gate_operands (Create_xor a b) = Some [a, b]"
| "gate_operands (Create_xnor a b) = Some [a, b]"
| "gate_operands (Create_maj a b c) = Some [a, b, c]"
| "gate_operands (Create_ite a b c) = Some [a, b, c]"
| "gate_operands (Create_xor3 a b c) = Some [a, b, c]"
| "gate_operands _ = None"

subsection \<open>Notions used in the statements\<close>

text \<open>The rewriting of one reference by \<^verbatim>\<open>substitute_node\<close>.\<close>

definition subst_signal :: "nat \<Rightarrow> nat \<Rightarrow> nat \<Rightarrow> nat" where
  "subst_signal old_node new_signal c = (if c = old_node then new_signal else c)"

text \<open>The number of places that use node \<open>n\<close>: as a child of a node or as an output.\<close>

definition references :: "nat \<Rightarrow> network \<Rightarrow> nat" where
  "references n st =
     sum_list (map (\<lambda>p. count_list (children p) n) (nodes st)) + count_list (outputs st) n"

text \<open>
  No key of the hash table with a non-empty child list refers to a cover index at or
  beyond the end of the cover table.
\<close>

definition hash_fresh :: "network \<Rightarrow> bool" where
  "hash_fresh st \<longleftrightarrow>
     (\<forall>chs ci n. hash st (chs, ci) = Some n \<longrightarrow> chs \<noteq> [] \<longrightarrow> unat ci < length (covers st))"

text \<open>The cube that the single-assignment \<^verbatim>\<open>compute\<close> builds from the input values.\<close>

definition single_pattern :: "bool list \<Rightarrow> cube" where
  "single_pattern vals = mk_cube (fst (fold_values vals 0 0)) (snd (fold_values vals 0 0))"

text \<open>
  The references to node \<open>m\<close> that a call adds: one for an output or register input, one
  for each occurrence among the children of a node that is really appended (the lookup
  misses), and for the replacement of a substitution all the uses of the replaced node.
\<close>

definition new_node_references :: "nat list \<Rightarrow> network \<Rightarrow> nat \<Rightarrow> nat" where
  "new_node_references chs st m =
     (case hash st (chs, of_nat (length (covers st))) of
        None \<Rightarrow> count_list chs m
      | Some n \<Rightarrow> 0)"

fun added_references :: "api_call \<Rightarrow> network \<Rightarrow> nat \<Rightarrow> nat" where
  "added_references (Create_po f) st m = (if m = f then 1 else 0)"
| "added_references (Create_ri f reset) st m = (if m = f then 1 else 0)"
| "added_references (Create_cover_node chs cubes polarity) st m =
     (if chs = [] then 0 else new_node_references chs st m)"
| "added_references (Substitute_node old_node new_signal) st m =
     (if m = new_signal then references old_node st else 0)"
| "added_references c st m =
     (case gate_operands c of Some chs \<Rightarrow> new_node_references chs st m | None \<Rightarrow> 0)"

text \<open>The call that replaces node \<open>m\<close>.\<close>

fun substitutes :: "api_call \<Rightarrow> nat \<Rightarrow> bool" where
  "substitutes (Substitute_node old_node new_signal) m = (m = old_node)"
| "substitutes c m = False"

text \<open>
  The index of an input combination, as the specification folds it: first value most
  significant, \<open>index = index * 2 + bit\<close>.
\<close>

definition index_of_values :: "bool list \<Rightarrow> nat" where
  "index_of_values vals = foldl (\<lambda>index b. 2 * index + (if b then 1 else 0)) 0 vals"

text \<open>
  The calls of the \<^verbatim>\<open>on_modified\<close> listeners that a substitution makes for a node \<open>m\<close> with
  the children \<open>chs\<close>: one for every position that holds the replaced node, in order,
  each with the child list in which the earlier positions are already rewritten.
\<close>

definition modified_calls_of :: "nat \<Rightarrow> nat \<Rightarrow> nat \<Rightarrow> nat list \<Rightarrow> (nat \<times> nat list) list" where
  "modified_calls_of old_node new_signal m chs =
     map (\<lambda>j. (m, map (subst_signal old_node new_signal) (take j chs) @ drop j chs))
       (filter (\<lambda>j. chs ! j = old_node) [0..<length chs])"

text \<open>
  The same lists by recursion over the children, with the part already passed as it is
  after its rewriting; used in the proofs only.
\<close>

fun snapshots :: "nat \<Rightarrow> nat \<Rightarrow> nat list \<Rightarrow> nat list \<Rightarrow> nat list list" where
  "snapshots old_node new_signal before [] = []"
| "snapshots old_node new_signal before (c # cs) =
     (if c = old_node
      then (before @ c # cs) # snapshots old_node new_signal (before @ [new_signal]) cs
      else snapshots old_node new_signal (before @ [c]) cs)"

subsection \<open>Example networks\<close>

text \<open>Two primary inputs, nodes 2 and 3.\<close>

definition net_ab :: network where
  "net_ab = snd (create_pi (snd (create_pi init)))"

text \<open>On top of them node 4 with the single cube of bits 01 over both positions, ON-set.\<close>

definition net_asym :: network where
  "net_asym = snd (the (create_cover_node [2, 3] ([mk_cube 1 3], True) net_ab))"

text \<open>On top of the two inputs an XOR gate, node 4.\<close>

definition net_xor :: network where
  "net_xor = snd (the (create_xor 2 3 net_ab))"

text \<open>A register output, node 2, followed by a primary input, node 3.\<close>

definition net_ro_pi :: network where
  "net_ro_pi = snd (create_pi (snd (create_ro init)))"

text \<open>On top of the two inputs an AND gate, node 4, that drives a primary output.\<close>

definition net_and_po :: network where
  "net_and_po = snd (the (create_po 4 (snd (the (create_and 2 3 net_ab)))))"

text \<open>On top of the two inputs an AND gate whose two children are both node 2.\<close>

definition net_and_same :: network where
  "net_and_same = snd (the (create_and 2 2 net_ab))"

text \<open>A fresh network on whose constant 0 \<open>2 ^ 32 - 1\<close> primary outputs have been created.\<close>

definition net_many_pos :: network where
  "net_many_pos = the (run (replicate 4294967295 (Create_po 0)) init)"

section \<open>Properties\<close>

subsection \<open>The loops of \<^verbatim>\<open>substitute_node\<close>\<close>


lemma incr_fanout_simps [simp]:
  "length (nodes (incr_fanout f st)) = length (nodes st)"
  "outputs (incr_fanout f st) = outputs st"
  "inputs (incr_fanout f st) = inputs st"
  "hash (incr_fanout f st) = hash st"
  "covers (incr_fanout f st) = covers st"
  "on_add_calls (incr_fanout f st) = on_add_calls st"
  "on_modified_calls (incr_fanout f st) = on_modified_calls st"
  by (simp_all add: incr_fanout_def)

lemma incr_fanout_children [simp]:
  "children (nodes (incr_fanout f st) ! m) = children (nodes st ! m)"
  by (cases "f < length (nodes st)"; cases "m = f") (simp_all add: incr_fanout_def list_update_beyond)

lemma incr_fanout_data1_h1 [simp]:
  "data1_h1 (nodes (incr_fanout f st) ! m) = data1_h1 (nodes st ! m)"
  by (cases "f < length (nodes st)"; cases "m = f") (simp_all add: incr_fanout_def list_update_beyond)

lemma incr_fanout_data0_h1:
  "f < length (nodes st) \<Longrightarrow>
   data0_h1 (nodes (incr_fanout f st) ! m) = data0_h1 (nodes st ! m) + (if m = f then 1 else 0)"
  by (cases "m = f") (simp_all add: incr_fanout_def)

lemma rewrite_children_frame:
  "rewrite_children old new i j r st = Some st' \<Longrightarrow>
   length (nodes st') = length (nodes st) \<and> outputs st' = outputs st \<and> hash st' = hash st \<and>
   covers st' = covers st \<and> on_add_calls st' = on_add_calls st \<and> inputs st' = inputs st"
  by (induction r arbitrary: j st) (auto simp: Let_def split: if_splits)

lemma rewrite_children_other:
  "rewrite_children old new i j r st = Some st' \<Longrightarrow> m \<noteq> i \<Longrightarrow>
   children (nodes st' ! m) = children (nodes st ! m)"
  by (induction r arbitrary: j st) (auto simp: Let_def split: if_splits)

lemma rewrite_children_data1_h1:
  "rewrite_children old new i j r st = Some st' \<Longrightarrow>
   data1_h1 (nodes st' ! m) = data1_h1 (nodes st ! m)"
proof (induction r arbitrary: j st)
  case 0
  then show ?case by simp
next
  case (Suc r)
  show ?case
  proof (cases "children (nodes st ! i) ! j = old")
    case True
    with Suc.prems have new: "new < length (nodes st)"
      by (simp add: Let_def split: if_splits)
    from True Suc.prems new Suc.IH show ?thesis
      by (cases "i < length (nodes st)"; cases "m = i") (auto simp: Let_def list_update_beyond)
  next
    case False
    with Suc show ?thesis by simp
  qed
qed

lemma rewrite_children_self:
  "rewrite_children old new i j r st = Some st' \<Longrightarrow> i < length (nodes st) \<Longrightarrow>
   j + r = length (children (nodes st ! i)) \<Longrightarrow>
   children (nodes st' ! i) =
     take j (children (nodes st ! i)) @ map (subst_signal old new) (drop j (children (nodes st ! i)))"
proof (induction r arbitrary: j st)
  case 0
  then show ?case by simp
next
  case (Suc r)
  let ?ch = "children (nodes st ! i)"
  have j: "j < length ?ch" using Suc.prems by simp
  have split: "drop j ?ch = ?ch ! j # drop (Suc j) ?ch"
    using j by (simp add: Cons_nth_drop_Suc)
  show ?case
  proof (cases "?ch ! j = old")
    case True
    with Suc.prems have new: "new < length (nodes st)"
      by (simp add: Let_def split: if_splits)
    let ?st1 = "(incr_fanout new (st\<lparr>nodes := (nodes st)[i := (nodes st ! i)\<lparr>children := ?ch[j := new]\<rparr>]\<rparr>))
                  \<lparr>on_modified_calls := on_modified_calls st @ [(i, ?ch)]\<rparr>"
    have run: "rewrite_children old new i (Suc j) r ?st1 = Some st'"
      using Suc.prems True new by (simp add: Let_def)
    have ch1: "children (nodes ?st1 ! i) = ?ch[j := new]"
      using Suc.prems by simp
    have "children (nodes st' ! i) =
            take (Suc j) (?ch[j := new]) @ map (subst_signal old new) (drop (Suc j) (?ch[j := new]))"
      using Suc.IH [OF run] Suc.prems ch1 by simp
    then show ?thesis
      using j True split by (simp add: take_Suc_conv_app_nth subst_signal_def)
  next
    case False
    then have run: "rewrite_children old new i (Suc j) r st = Some st'"
      using Suc.prems by simp
    show ?thesis
      using Suc.IH [OF run] Suc.prems j False split
      by (simp add: take_Suc_conv_app_nth subst_signal_def)
  qed
qed

lemma rewrite_children_fanout:
  "rewrite_children old new i j r st = Some st' \<Longrightarrow> i < length (nodes st) \<Longrightarrow>
   m < length (nodes st) \<Longrightarrow> j + r = length (children (nodes st ! i)) \<Longrightarrow>
   data0_h1 (nodes st' ! m) =
     data0_h1 (nodes st ! m)
       + (if m = new then of_nat (count_list (drop j (children (nodes st ! i))) old) else 0)"
proof (induction r arbitrary: j st)
  case 0
  then show ?case by simp
next
  case (Suc r)
  let ?ch = "children (nodes st ! i)"
  have j: "j < length ?ch" using Suc.prems by simp
  have split: "drop j ?ch = ?ch ! j # drop (Suc j) ?ch"
    using j by (simp add: Cons_nth_drop_Suc)
  show ?case
  proof (cases "?ch ! j = old")
    case True
    with Suc.prems have new: "new < length (nodes st)"
      by (simp add: Let_def split: if_splits)
    let ?st0 = "st\<lparr>nodes := (nodes st)[i := (nodes st ! i)\<lparr>children := ?ch[j := new]\<rparr>]\<rparr>"
    let ?st1 = "(incr_fanout new ?st0)\<lparr>on_modified_calls := on_modified_calls st @ [(i, ?ch)]\<rparr>"
    have run: "rewrite_children old new i (Suc j) r ?st1 = Some st'"
      using Suc.prems True new by (simp add: Let_def)
    have ch1: "children (nodes ?st1 ! i) = ?ch[j := new]"
      using Suc.prems by simp
    have f0: "data0_h1 (nodes ?st0 ! m) = data0_h1 (nodes st ! m)"
      using Suc.prems by (cases "m = i") simp_all
    have f1: "data0_h1 (nodes ?st1 ! m) = data0_h1 (nodes st ! m) + (if m = new then 1 else 0)"
      using incr_fanout_data0_h1 [of new ?st0 m] new f0 by simp
    have "data0_h1 (nodes st' ! m) =
            data0_h1 (nodes ?st1 ! m)
              + (if m = new then of_nat (count_list (drop (Suc j) (?ch[j := new])) old) else 0)"
      using Suc.IH [OF run] Suc.prems ch1 by simp
    then show ?thesis
      using f1 True split by simp
  next
    case False
    then have run: "rewrite_children old new i (Suc j) r st = Some st'"
      using Suc.prems by simp
    show ?thesis
      using Suc.IH [OF run] Suc.prems False split by simp
  qed
qed

lemma rewrite_children_calls_grow:
  "rewrite_children old new i j r st = Some st' \<Longrightarrow>
   \<exists>evs. on_modified_calls st' = on_modified_calls st @ evs"
proof (induction r arbitrary: j st)
  case 0
  then show ?case by simp
next
  case (Suc r)
  show ?case
  proof (cases "children (nodes st ! i) ! j = old")
    case True
    with Suc.prems have new: "new < length (nodes st)"
      by (simp add: Let_def split: if_splits)
    from Suc.prems True new obtain st1 where
      run: "rewrite_children old new i (Suc j) r st1 = Some st'" and
      calls: "on_modified_calls st1 = on_modified_calls st @ [(i, children (nodes st ! i))]"
      by (simp add: Let_def)
    from Suc.IH [OF run] calls show ?thesis by auto
  next
    case False
    with Suc show ?thesis by simp
  qed
qed

lemma rewrite_children_first_call:
  "rewrite_children old new i j r st = Some st' \<Longrightarrow>
   j + r = length (children (nodes st ! i)) \<Longrightarrow>
   old \<in> set (drop j (children (nodes st ! i))) \<Longrightarrow>
   \<exists>evs. on_modified_calls st' = on_modified_calls st @ (i, children (nodes st ! i)) # evs"
proof (induction r arbitrary: j st)
  case 0
  then show ?case by simp
next
  case (Suc r)
  let ?ch = "children (nodes st ! i)"
  have j: "j < length ?ch" using Suc.prems by simp
  have split: "drop j ?ch = ?ch ! j # drop (Suc j) ?ch"
    using j by (simp add: Cons_nth_drop_Suc)
  show ?case
  proof (cases "?ch ! j = old")
    case True
    with Suc.prems have new: "new < length (nodes st)"
      by (simp add: Let_def split: if_splits)
    from Suc.prems True new obtain st1 where
      run: "rewrite_children old new i (Suc j) r st1 = Some st'" and
      calls: "on_modified_calls st1 = on_modified_calls st @ [(i, ?ch)]"
      by (simp add: Let_def)
    from rewrite_children_calls_grow [OF run] calls show ?thesis by auto
  next
    case False
    then have run: "rewrite_children old new i (Suc j) r st = Some st'"
      using Suc.prems by simp
    have "old \<in> set (drop (Suc j) ?ch)"
      using Suc.prems(3) False split by auto
    with Suc.IH [OF run] Suc.prems show ?thesis by simp
  qed
qed

lemma rewrite_children_total:
  "new < length (nodes st) \<Longrightarrow> \<exists>st'. rewrite_children old new i j r st = Some st'"
proof (induction r arbitrary: j st)
  case 0
  then show ?case by simp
next
  case (Suc r)
  show ?case
  proof (cases "children (nodes st ! i) ! j = old")
    case True
    let ?st1 = "(incr_fanout new (st\<lparr>nodes := (nodes st)[i := (nodes st ! i)\<lparr>children := (children (nodes st ! i))[j := new]\<rparr>]\<rparr>))
                  \<lparr>on_modified_calls := on_modified_calls st @ [(i, children (nodes st ! i))]\<rparr>"
    have "new < length (nodes ?st1)" using Suc.prems by simp
    from Suc.IH [OF this, of "Suc j"] True Suc.prems show ?thesis
      by (simp add: Let_def)
  next
    case False
    with Suc show ?thesis by simp
  qed
qed

lemma rewrite_parents_frame:
  "rewrite_parents old new i r st = Some st' \<Longrightarrow>
   length (nodes st') = length (nodes st) \<and> outputs st' = outputs st \<and> hash st' = hash st \<and>
   covers st' = covers st \<and> on_add_calls st' = on_add_calls st \<and> inputs st' = inputs st"
proof (induction r arbitrary: i st)
  case 0
  then show ?case by simp
next
  case (Suc r)
  then obtain st1 where
    inner: "rewrite_children old new i 0 (length (children (nodes st ! i))) st = Some st1" and
    rest: "rewrite_parents old new (Suc i) r st1 = Some st'"
    by (auto split: option.splits)
  from Suc.IH [OF rest] rewrite_children_frame [OF inner] show ?case by simp
qed

lemma rewrite_parents_data1_h1:
  "rewrite_parents old new i r st = Some st' \<Longrightarrow>
   data1_h1 (nodes st' ! m) = data1_h1 (nodes st ! m)"
proof (induction r arbitrary: i st)
  case 0
  then show ?case by simp
next
  case (Suc r)
  then obtain st1 where
    inner: "rewrite_children old new i 0 (length (children (nodes st ! i))) st = Some st1" and
    rest: "rewrite_parents old new (Suc i) r st1 = Some st'"
    by (auto split: option.splits)
  from Suc.IH [OF rest] rewrite_children_data1_h1 [OF inner] show ?case by simp
qed

lemma rewrite_parents_children:
  "rewrite_parents old new i r st = Some st' \<Longrightarrow> i + r = length (nodes st) \<Longrightarrow>
   m < length (nodes st) \<Longrightarrow>
   children (nodes st' ! m) =
     (if i \<le> m then map (subst_signal old new) (children (nodes st ! m))
      else children (nodes st ! m))"
proof (induction r arbitrary: i st)
  case 0
  then show ?case by simp
next
  case (Suc r)
  then obtain st1 where
    inner: "rewrite_children old new i 0 (length (children (nodes st ! i))) st = Some st1" and
    rest: "rewrite_parents old new (Suc i) r st1 = Some st'"
    by (auto split: option.splits)
  have i: "i < length (nodes st)" using Suc.prems by simp
  have len: "length (nodes st1) = length (nodes st)"
    using rewrite_children_frame [OF inner] by simp
  have self: "children (nodes st1 ! i) = map (subst_signal old new) (children (nodes st ! i))"
    using rewrite_children_self [OF inner i] by simp
  have other: "m \<noteq> i \<Longrightarrow> children (nodes st1 ! m) = children (nodes st ! m)"
    using rewrite_children_other [OF inner] by simp
  have "children (nodes st' ! m) =
          (if Suc i \<le> m then map (subst_signal old new) (children (nodes st1 ! m))
           else children (nodes st1 ! m))"
    using Suc.IH [OF rest] Suc.prems len by simp
  then show ?case
    using self other by (cases "m = i") auto
qed

lemma rewrite_parents_fanout:
  "rewrite_parents old new i r st = Some st' \<Longrightarrow> i + r = length (nodes st) \<Longrightarrow>
   m < length (nodes st) \<Longrightarrow>
   data0_h1 (nodes st' ! m) =
     data0_h1 (nodes st ! m)
       + (if m = new
          then of_nat (\<Sum>k = i..<length (nodes st). count_list (children (nodes st ! k)) old)
          else 0)"
proof (induction r arbitrary: i st)
  case 0
  then show ?case by simp
next
  case (Suc r)
  then obtain st1 where
    inner: "rewrite_children old new i 0 (length (children (nodes st ! i))) st = Some st1" and
    rest: "rewrite_parents old new (Suc i) r st1 = Some st'"
    by (auto split: option.splits)
  have i: "i < length (nodes st)" using Suc.prems by simp
  have len: "length (nodes st1) = length (nodes st)"
    using rewrite_children_frame [OF inner] by simp
  have other: "\<And>k. k \<noteq> i \<Longrightarrow> children (nodes st1 ! k) = children (nodes st ! k)"
    using rewrite_children_other [OF inner] by simp
  have f1: "data0_h1 (nodes st1 ! m) =
              data0_h1 (nodes st ! m)
                + (if m = new then of_nat (count_list (children (nodes st ! i)) old) else 0)"
    using rewrite_children_fanout [OF inner i Suc.prems(3)] by simp
  have same: "(\<Sum>k = Suc i..<length (nodes st). count_list (children (nodes st1 ! k)) old) =
              (\<Sum>k = Suc i..<length (nodes st). count_list (children (nodes st ! k)) old)"
    by (rule sum.cong) (simp_all add: other)
  have f2: "data0_h1 (nodes st' ! m) =
              data0_h1 (nodes st1 ! m)
                + (if m = new
                   then of_nat (\<Sum>k = Suc i..<length (nodes st). count_list (children (nodes st ! k)) old)
                   else 0)"
    using Suc.IH [OF rest] Suc.prems len same by simp
  have "(\<Sum>k = i..<length (nodes st). count_list (children (nodes st ! k)) old) =
          count_list (children (nodes st ! i)) old
            + (\<Sum>k = Suc i..<length (nodes st). count_list (children (nodes st ! k)) old)"
    using i by (simp add: sum.atLeast_Suc_lessThan)
  then show ?case
    using f1 f2 by simp
qed

lemma rewrite_parents_calls_grow:
  "rewrite_parents old new i r st = Some st' \<Longrightarrow>
   \<exists>evs. on_modified_calls st' = on_modified_calls st @ evs"
proof (induction r arbitrary: i st)
  case 0
  then show ?case by simp
next
  case (Suc r)
  then obtain st1 where
    inner: "rewrite_children old new i 0 (length (children (nodes st ! i))) st = Some st1" and
    rest: "rewrite_parents old new (Suc i) r st1 = Some st'"
    by (auto split: option.splits)
  from Suc.IH [OF rest] rewrite_children_calls_grow [OF inner] show ?case by auto
qed

lemma rewrite_parents_calls:
  "rewrite_parents old new i r st = Some st' \<Longrightarrow> i + r = length (nodes st) \<Longrightarrow>
   i \<le> m \<Longrightarrow> m < length (nodes st) \<Longrightarrow> old \<in> set (children (nodes st ! m)) \<Longrightarrow>
   \<exists>evs. on_modified_calls st' = on_modified_calls st @ evs \<and>
         (m, children (nodes st ! m)) \<in> set evs"
proof (induction r arbitrary: i st)
  case 0
  then show ?case by simp
next
  case (Suc r)
  then obtain st1 where
    inner: "rewrite_children old new i 0 (length (children (nodes st ! i))) st = Some st1" and
    rest: "rewrite_parents old new (Suc i) r st1 = Some st'"
    by (auto split: option.splits)
  have len: "length (nodes st1) = length (nodes st)"
    using rewrite_children_frame [OF inner] by simp
  show ?case
  proof (cases "m = i")
    case True
    with Suc.prems have "old \<in> set (drop 0 (children (nodes st ! i)))" by simp
    from rewrite_children_first_call [OF inner _ this] obtain evs1 where
      "on_modified_calls st1 = on_modified_calls st @ (i, children (nodes st ! i)) # evs1"
      by auto
    with rewrite_parents_calls_grow [OF rest] True show ?thesis by auto
  next
    case False
    then have "children (nodes st1 ! m) = children (nodes st ! m)"
      using rewrite_children_other [OF inner] by simp
    with Suc.IH [OF rest] Suc.prems len False obtain evs2 where
      "on_modified_calls st' = on_modified_calls st1 @ evs2" and
      "(m, children (nodes st ! m)) \<in> set evs2"
      by auto
    with rewrite_children_calls_grow [OF inner] show ?thesis by auto
  qed
qed

lemma rewrite_parents_total:
  "new < length (nodes st) \<Longrightarrow> \<exists>st'. rewrite_parents old new i r st = Some st'"
proof (induction r arbitrary: i st)
  case 0
  then show ?case by simp
next
  case (Suc r)
  from rewrite_children_total [OF Suc.prems] obtain st1 where
    inner: "rewrite_children old new i 0 (length (children (nodes st ! i))) st = Some st1"
    by blast
  have "new < length (nodes st1)"
    using rewrite_children_frame [OF inner] Suc.prems by simp
  from Suc.IH [OF this] inner show ?case by simp
qed

lemma rewrite_outputs_frame:
  "rewrite_outputs old new j r st = Some st' \<Longrightarrow>
   length (nodes st') = length (nodes st) \<and> hash st' = hash st \<and> covers st' = covers st \<and>
   on_add_calls st' = on_add_calls st \<and> on_modified_calls st' = on_modified_calls st \<and>
   inputs st' = inputs st"
  by (induction r arbitrary: j st) (auto simp: Let_def split: if_splits)

lemma rewrite_outputs_children:
  "rewrite_outputs old new j r st = Some st' \<Longrightarrow>
   children (nodes st' ! m) = children (nodes st ! m)"
  by (induction r arbitrary: j st) (auto simp: Let_def split: if_splits)

lemma rewrite_outputs_data1_h1:
  "rewrite_outputs old new j r st = Some st' \<Longrightarrow>
   data1_h1 (nodes st' ! m) = data1_h1 (nodes st ! m)"
  by (induction r arbitrary: j st) (auto simp: Let_def split: if_splits)

lemma rewrite_outputs_outputs:
  "rewrite_outputs old new j r st = Some st' \<Longrightarrow> j + r = length (outputs st) \<Longrightarrow>
   outputs st' = take j (outputs st) @ map (subst_signal old new) (drop j (outputs st))"
proof (induction r arbitrary: j st)
  case 0
  then show ?case by simp
next
  case (Suc r)
  let ?os = "outputs st"
  have j: "j < length ?os" using Suc.prems by simp
  have split: "drop j ?os = ?os ! j # drop (Suc j) ?os"
    using j by (simp add: Cons_nth_drop_Suc)
  show ?case
  proof (cases "?os ! j = old")
    case True
    let ?st1 = "incr_fanout new (st\<lparr>outputs := ?os[j := new]\<rparr>)"
    have run: "rewrite_outputs old new (Suc j) r ?st1 = Some st'"
      using Suc.prems True by (simp add: Let_def split: if_splits)
    have "outputs st' = take (Suc j) (?os[j := new]) @ map (subst_signal old new) (drop (Suc j) (?os[j := new]))"
      using Suc.IH [OF run] Suc.prems by simp
    then show ?thesis
      using j True split by (simp add: take_Suc_conv_app_nth subst_signal_def)
  next
    case False
    then have run: "rewrite_outputs old new (Suc j) r st = Some st'"
      using Suc.prems by simp
    show ?thesis
      using Suc.IH [OF run] Suc.prems j False split
      by (simp add: take_Suc_conv_app_nth subst_signal_def)
  qed
qed

lemma rewrite_outputs_fanout:
  "rewrite_outputs old new j r st = Some st' \<Longrightarrow> j + r = length (outputs st) \<Longrightarrow>
   m < length (nodes st) \<Longrightarrow>
   data0_h1 (nodes st' ! m) =
     data0_h1 (nodes st ! m)
       + (if m = new then of_nat (count_list (drop j (outputs st)) old) else 0)"
proof (induction r arbitrary: j st)
  case 0
  then show ?case by simp
next
  case (Suc r)
  let ?os = "outputs st"
  have j: "j < length ?os" using Suc.prems by simp
  have split: "drop j ?os = ?os ! j # drop (Suc j) ?os"
    using j by (simp add: Cons_nth_drop_Suc)
  show ?case
  proof (cases "?os ! j = old")
    case True
    with Suc.prems have new: "new < length (nodes st)"
      by (simp add: Let_def split: if_splits)
    let ?st0 = "st\<lparr>outputs := ?os[j := new]\<rparr>"
    let ?st1 = "incr_fanout new ?st0"
    have run: "rewrite_outputs old new (Suc j) r ?st1 = Some st'"
      using Suc.prems True new by (simp add: Let_def)
    have f1: "data0_h1 (nodes ?st1 ! m) = data0_h1 (nodes st ! m) + (if m = new then 1 else 0)"
      using incr_fanout_data0_h1 [of new ?st0 m] new by simp
    have "data0_h1 (nodes st' ! m) =
            data0_h1 (nodes ?st1 ! m)
              + (if m = new then of_nat (count_list (drop (Suc j) (?os[j := new])) old) else 0)"
      using Suc.IH [OF run] Suc.prems by simp
    then show ?thesis
      using f1 True split by simp
  next
    case False
    then have run: "rewrite_outputs old new (Suc j) r st = Some st'"
      using Suc.prems by simp
    show ?thesis
      using Suc.IH [OF run] Suc.prems False split by simp
  qed
qed

lemma rewrite_outputs_total:
  "new < length (nodes st) \<Longrightarrow> \<exists>st'. rewrite_outputs old new j r st = Some st'"
proof (induction r arbitrary: j st)
  case 0
  then show ?case by simp
next
  case (Suc r)
  have "new < length (nodes (incr_fanout new (st\<lparr>outputs := (outputs st)[j := new]\<rparr>)))"
    using Suc.prems by simp
  from Suc.IH [OF this, of "Suc j"] Suc.IH [OF Suc.prems, of "Suc j"] Suc.prems show ?case
    by (simp add: Let_def)
qed

lemma references_sum:
  "references n st =
     (\<Sum>k = 0..<length (nodes st). count_list (children (nodes st ! k)) n)
       + count_list (outputs st) n"
proof -
  have "sum_list (map (\<lambda>p. count_list (children p) n) (nodes st)) =
          (\<Sum>k = 0..<length (nodes st). count_list (children (nodes st ! k)) n)"
    by (simp add: sum_list_sum_nth)
  then show ?thesis by (simp add: references_def)
qed

lemma substitute_node_parts:
  assumes "substitute_node old new st = Some st'"
  obtains st1 st2 where
    "length (nodes st) < 2 ^ 32"
    "rewrite_parents old new 0 (length (nodes st)) st = Some st1"
    "rewrite_outputs old new 0 (length (outputs st1)) st1 = Some st2"
    "old < length (nodes st2)"
    "st' = st2\<lparr>nodes := (nodes st2)[old := (nodes st2 ! old)\<lparr>data0_h1 := 0\<rparr>]\<rparr>"
  using assms by (auto simp: substitute_node_def split: if_splits option.splits)

lemma substitute_node_frame:
  assumes "substitute_node old new st = Some st'"
  shows "length (nodes st') = length (nodes st) \<and> hash st' = hash st \<and> covers st' = covers st \<and>
         on_add_calls st' = on_add_calls st \<and> inputs st' = inputs st \<and>
         old < length (nodes st) \<and> length (nodes st) < 2 ^ 32"
proof -
  from assms obtain st1 st2 where
    p: "rewrite_parents old new 0 (length (nodes st)) st = Some st1" and
    q: "rewrite_outputs old new 0 (length (outputs st1)) st1 = Some st2" and
    o: "old < length (nodes st2)" and
    l: "length (nodes st) < 2 ^ 32" and
    e: "st' = st2\<lparr>nodes := (nodes st2)[old := (nodes st2 ! old)\<lparr>data0_h1 := 0\<rparr>]\<rparr>"
    by (rule substitute_node_parts)
  from rewrite_parents_frame [OF p] rewrite_outputs_frame [OF q] o l e show ?thesis by simp
qed

lemma substitute_node_data1_h1:
  assumes "substitute_node old new st = Some st'"
  shows "data1_h1 (nodes st' ! m) = data1_h1 (nodes st ! m)"
proof -
  from assms obtain st1 st2 where
    p: "rewrite_parents old new 0 (length (nodes st)) st = Some st1" and
    q: "rewrite_outputs old new 0 (length (outputs st1)) st1 = Some st2" and
    o: "old < length (nodes st2)" and
    e: "st' = st2\<lparr>nodes := (nodes st2)[old := (nodes st2 ! old)\<lparr>data0_h1 := 0\<rparr>]\<rparr>"
    by (rule substitute_node_parts)
  have "data1_h1 (nodes st' ! m) = data1_h1 (nodes st2 ! m)"
    using e o by (cases "m = old") simp_all
  with rewrite_parents_data1_h1 [OF p] rewrite_outputs_data1_h1 [OF q] show ?thesis by simp
qed

lemma substitute_node_children:
  assumes "substitute_node old new st = Some st'" and "m < length (nodes st)"
  shows "children (nodes st' ! m) = map (subst_signal old new) (children (nodes st ! m))"
proof -
  from assms(1) obtain st1 st2 where
    p: "rewrite_parents old new 0 (length (nodes st)) st = Some st1" and
    q: "rewrite_outputs old new 0 (length (outputs st1)) st1 = Some st2" and
    o: "old < length (nodes st2)" and
    e: "st' = st2\<lparr>nodes := (nodes st2)[old := (nodes st2 ! old)\<lparr>data0_h1 := 0\<rparr>]\<rparr>"
    by (rule substitute_node_parts)
  have "children (nodes st' ! m) = children (nodes st2 ! m)"
    using e o by (cases "m = old") simp_all
  with rewrite_parents_children [OF p _ assms(2)] rewrite_outputs_children [OF q]
  show ?thesis by simp
qed

lemma substitute_node_outputs:
  assumes "substitute_node old new st = Some st'"
  shows "outputs st' = map (subst_signal old new) (outputs st)"
proof -
  from assms(1) obtain st1 st2 where
    p: "rewrite_parents old new 0 (length (nodes st)) st = Some st1" and
    q: "rewrite_outputs old new 0 (length (outputs st1)) st1 = Some st2" and
    e: "st' = st2\<lparr>nodes := (nodes st2)[old := (nodes st2 ! old)\<lparr>data0_h1 := 0\<rparr>]\<rparr>"
    by (rule substitute_node_parts)
  from rewrite_outputs_outputs [OF q] rewrite_parents_frame [OF p] e show ?thesis by simp
qed

lemma substitute_node_fanout:
  assumes "substitute_node old new st = Some st'" and "m < length (nodes st)"
  shows "data0_h1 (nodes st' ! m) =
           (if m = old then 0
            else data0_h1 (nodes st ! m) + (if m = new then of_nat (references old st) else 0))"
proof -
  from assms(1) obtain st1 st2 where
    p: "rewrite_parents old new 0 (length (nodes st)) st = Some st1" and
    q: "rewrite_outputs old new 0 (length (outputs st1)) st1 = Some st2" and
    o: "old < length (nodes st2)" and
    e: "st' = st2\<lparr>nodes := (nodes st2)[old := (nodes st2 ! old)\<lparr>data0_h1 := 0\<rparr>]\<rparr>"
    by (rule substitute_node_parts)
  have l1: "length (nodes st1) = length (nodes st)" and o1: "outputs st1 = outputs st"
    using rewrite_parents_frame [OF p] by simp_all
  have f1: "data0_h1 (nodes st1 ! m) =
              data0_h1 (nodes st ! m)
                + (if m = new
                   then of_nat (\<Sum>k = 0..<length (nodes st). count_list (children (nodes st ! k)) old)
                   else 0)"
    using rewrite_parents_fanout [OF p _ assms(2)] by simp
  have f2: "data0_h1 (nodes st2 ! m) =
              data0_h1 (nodes st1 ! m)
                + (if m = new then of_nat (count_list (outputs st) old) else 0)"
    using rewrite_outputs_fanout [OF q, of m] assms(2) l1 o1 by simp
  have f3: "data0_h1 (nodes st' ! m) = (if m = old then 0 else data0_h1 (nodes st2 ! m))"
    using e o by (cases "m = old") simp_all
  show ?thesis
    using f1 f2 f3 by (simp add: references_sum)
qed

lemma substitute_node_calls:
  assumes "substitute_node old new st = Some st'" and "m < length (nodes st)"
    and "old \<in> set (children (nodes st ! m))"
  shows "\<exists>evs. on_modified_calls st' = on_modified_calls st @ evs \<and>
               (m, children (nodes st ! m)) \<in> set evs"
proof -
  from assms(1) obtain st1 st2 where
    p: "rewrite_parents old new 0 (length (nodes st)) st = Some st1" and
    q: "rewrite_outputs old new 0 (length (outputs st1)) st1 = Some st2" and
    e: "st' = st2\<lparr>nodes := (nodes st2)[old := (nodes st2 ! old)\<lparr>data0_h1 := 0\<rparr>]\<rparr>"
    by (rule substitute_node_parts)
  have "on_modified_calls st' = on_modified_calls st1"
    using rewrite_outputs_frame [OF q] e by simp
  with rewrite_parents_calls [OF p _ _ assms(2,3)] show ?thesis by simp
qed

lemma substitute_node_total:
  assumes "old < length (nodes st)" and "new < length (nodes st)" and "length (nodes st) < 2 ^ 32"
  shows "\<exists>st'. substitute_node old new st = Some st'"
proof -
  from rewrite_parents_total [OF assms(2)] obtain st1 where
    p: "rewrite_parents old new 0 (length (nodes st)) st = Some st1" by blast
  have l1: "length (nodes st1) = length (nodes st)"
    using rewrite_parents_frame [OF p] by simp
  then have "new < length (nodes st1)" using assms(2) by simp
  from rewrite_outputs_total [OF this] obtain st2 where
    q: "rewrite_outputs old new 0 (length (outputs st1)) st1 = Some st2" by blast
  have "length (nodes st2) = length (nodes st)"
    using rewrite_outputs_frame [OF q] l1 by simp
  with p q assms show ?thesis
    by (simp add: substitute_node_def)
qed

text \<open>The calls of the listeners, exactly.\<close>

lemma snapshots_positions:
  "snapshots old new before cs =
     map (\<lambda>j. before @ map (subst_signal old new) (take j cs) @ drop j cs)
       (filter (\<lambda>j. cs ! j = old) [0..<length cs])"
proof (induction cs arbitrary: before)
  case Nil
  then show ?case by simp
next
  case (Cons c cs)
  have upt: "[0..<length (c # cs)] = 0 # map Suc [0..<length cs]"
    by (simp add: upt_conv_Cons map_Suc_upt del: upt_Suc)
  have tail: "map (\<lambda>j. before @ map (subst_signal old new) (take j (c # cs)) @ drop j (c # cs))
                (filter (\<lambda>j. (c # cs) ! j = old) (map Suc [0..<length cs])) =
              map (\<lambda>j. (before @ [subst_signal old new c]) @ map (subst_signal old new) (take j cs) @ drop j cs)
                (filter (\<lambda>j. cs ! j = old) [0..<length cs])"
    by (simp add: filter_map comp_def)
  show ?case
  proof (cases "c = old")
    case True
    then have s: "subst_signal old new c = new" by (simp add: subst_signal_def)
    show ?thesis
      unfolding upt using True tail s Cons.IH [of "before @ [new]"] by simp
  next
    case False
    then have s: "subst_signal old new c = c" by (simp add: subst_signal_def)
    show ?thesis
      unfolding upt using False tail s Cons.IH [of "before @ [c]"] by simp
  qed
qed

lemma modified_calls_of_snapshots:
  "modified_calls_of old new m chs = map (Pair m) (snapshots old new [] chs)"
  by (simp add: modified_calls_of_def snapshots_positions comp_def)

lemma snapshots_length: "length (snapshots old new before cs) = count_list cs old"
  by (induction cs arbitrary: before) simp_all

lemma snapshots_first:
  "old \<in> set cs \<Longrightarrow> hd (snapshots old new before cs) = before @ cs"
  by (induction cs arbitrary: before) auto

lemma rewrite_children_calls_exact:
  "rewrite_children old new i j r st = Some st' \<Longrightarrow> i < length (nodes st) \<Longrightarrow>
   j + r = length (children (nodes st ! i)) \<Longrightarrow>
   on_modified_calls st' =
     on_modified_calls st @
       map (Pair i) (snapshots old new (take j (children (nodes st ! i)))
                       (drop j (children (nodes st ! i))))"
proof (induction r arbitrary: j st)
  case 0
  then show ?case by simp
next
  case (Suc r)
  let ?ch = "children (nodes st ! i)"
  have j: "j < length ?ch" using Suc.prems by simp
  have split: "drop j ?ch = ?ch ! j # drop (Suc j) ?ch"
    using j by (simp add: Cons_nth_drop_Suc)
  have whole: "take j ?ch @ ?ch ! j # drop (Suc j) ?ch = ?ch"
    using j by (simp add: id_take_nth_drop [symmetric])
  show ?case
  proof (cases "?ch ! j = old")
    case True
    with Suc.prems have new: "new < length (nodes st)"
      by (simp add: Let_def split: if_splits)
    let ?st1 = "(incr_fanout new (st\<lparr>nodes := (nodes st)[i := (nodes st ! i)\<lparr>children := ?ch[j := new]\<rparr>]\<rparr>))
                  \<lparr>on_modified_calls := on_modified_calls st @ [(i, ?ch)]\<rparr>"
    have run: "rewrite_children old new i (Suc j) r ?st1 = Some st'"
      using Suc.prems True new by (simp add: Let_def)
    have ch1: "children (nodes ?st1 ! i) = ?ch[j := new]"
      using Suc.prems by simp
    have t: "take (Suc j) (?ch[j := new]) = take j ?ch @ [new]"
      using j by (simp add: take_Suc_conv_app_nth)
    have "on_modified_calls st' =
            on_modified_calls ?st1 @
              map (Pair i) (snapshots old new (take (Suc j) (?ch[j := new]))
                              (drop (Suc j) (?ch[j := new])))"
      using Suc.IH [OF run] Suc.prems ch1 by simp
    then show ?thesis
      using True split whole t by simp
  next
    case False
    then have run: "rewrite_children old new i (Suc j) r st = Some st'"
      using Suc.prems by simp
    show ?thesis
      using Suc.IH [OF run] Suc.prems j False split
      by (simp add: take_Suc_conv_app_nth)
  qed
qed

lemma rewrite_parents_calls_exact:
  "rewrite_parents old new i r st = Some st' \<Longrightarrow> i + r = length (nodes st) \<Longrightarrow>
   on_modified_calls st' =
     on_modified_calls st @
       concat (map (\<lambda>m. modified_calls_of old new m (children (nodes st ! m)))
                 [i..<length (nodes st)])"
proof (induction r arbitrary: i st)
  case 0
  then show ?case by simp
next
  case (Suc r)
  then obtain st1 where
    inner: "rewrite_children old new i 0 (length (children (nodes st ! i))) st = Some st1" and
    rest: "rewrite_parents old new (Suc i) r st1 = Some st'"
    by (auto split: option.splits)
  have i: "i < length (nodes st)" using Suc.prems by simp
  have len: "length (nodes st1) = length (nodes st)"
    using rewrite_children_frame [OF inner] by simp
  have other: "\<And>m. m \<noteq> i \<Longrightarrow> children (nodes st1 ! m) = children (nodes st ! m)"
    using rewrite_children_other [OF inner] by simp
  have c1: "on_modified_calls st1 =
              on_modified_calls st @ modified_calls_of old new i (children (nodes st ! i))"
    using rewrite_children_calls_exact [OF inner i] by (simp add: modified_calls_of_snapshots)
  have same: "map (\<lambda>m. modified_calls_of old new m (children (nodes st1 ! m)))
                [Suc i..<length (nodes st)] =
              map (\<lambda>m. modified_calls_of old new m (children (nodes st ! m)))
                [Suc i..<length (nodes st)]"
    by (rule map_cong) (simp_all add: other)
  have c2: "on_modified_calls st' =
              on_modified_calls st1 @
                concat (map (\<lambda>m. modified_calls_of old new m (children (nodes st ! m)))
                          [Suc i..<length (nodes st)])"
    using Suc.IH [OF rest] Suc.prems len same by simp
  have "[i..<length (nodes st)] = i # [Suc i..<length (nodes st)]"
    using i by (simp add: upt_conv_Cons)
  with c1 c2 show ?case by simp
qed

lemma substitute_node_calls_exact:
  assumes "substitute_node old new st = Some st'"
  shows "on_modified_calls st' =
           on_modified_calls st @
             concat (map (\<lambda>m. modified_calls_of old new m (children (nodes st ! m)))
                       [0..<length (nodes st)])"
proof -
  from assms obtain st1 st2 where
    p: "rewrite_parents old new 0 (length (nodes st)) st = Some st1" and
    q: "rewrite_outputs old new 0 (length (outputs st1)) st1 = Some st2" and
    e: "st' = st2\<lparr>nodes := (nodes st2)[old := (nodes st2 ! old)\<lparr>data0_h1 := 0\<rparr>]\<rparr>"
    by (rule substitute_node_parts)
  have "on_modified_calls st' = on_modified_calls st1"
    using rewrite_outputs_frame [OF q] e by simp
  with rewrite_parents_calls_exact [OF p] show ?thesis by simp
qed

subsection \<open>Node creation and the hash table\<close>


lemma fold_incr_fanout_frame [simp]:
  "length (nodes (fold incr_fanout chs st)) = length (nodes st)"
  "outputs (fold incr_fanout chs st) = outputs st"
  "inputs (fold incr_fanout chs st) = inputs st"
  "hash (fold incr_fanout chs st) = hash st"
  "covers (fold incr_fanout chs st) = covers st"
  "on_add_calls (fold incr_fanout chs st) = on_add_calls st"
  "on_modified_calls (fold incr_fanout chs st) = on_modified_calls st"
  by (induction chs arbitrary: st; simp)+

lemma fold_incr_fanout_children [simp]:
  "children (nodes (fold incr_fanout chs st) ! m) = children (nodes st ! m)"
  by (induction chs arbitrary: st) simp_all

lemma fold_incr_fanout_data1_h1 [simp]:
  "data1_h1 (nodes (fold incr_fanout chs st) ! m) = data1_h1 (nodes st ! m)"
  by (induction chs arbitrary: st) simp_all

lemma fold_incr_fanout_data0_h1:
  "\<forall>c\<in>set chs. c < length (nodes st) \<Longrightarrow>
   data0_h1 (nodes (fold incr_fanout chs st) ! m) = data0_h1 (nodes st ! m) + of_nat (count_list chs m)"
proof (induction chs arbitrary: st)
  case Nil
  then show ?case by simp
next
  case (Cons c chs)
  have "data0_h1 (nodes (fold incr_fanout chs (incr_fanout c st)) ! m) =
          data0_h1 (nodes (incr_fanout c st) ! m) + of_nat (count_list chs m)"
    using Cons.prems by (intro Cons.IH) simp
  then show ?case
    using Cons.prems by (simp add: incr_fanout_data0_h1)
qed

lemma create_cover_node_internal_hit:
  "hash st (chs, of_nat (length (covers st))) = Some n \<Longrightarrow>
   create_cover_node_internal chs cv st = Some (n, st\<lparr>covers := covers st @ [cv]\<rparr>)"
  by (simp add: create_cover_node_internal_def insert_cover_def node_key_def empty_node_def)

lemma create_cover_node_internal_covers:
  "create_cover_node_internal chs cv st = Some (n, st') \<Longrightarrow> covers st' = covers st @ [cv]"
  by (auto simp: create_cover_node_internal_def insert_cover_def node_key_def empty_node_def
      set_value_def Let_def split: option.splits if_splits)

lemma create_cover_node_internal_miss:
  assumes "create_cover_node_internal chs cv st = Some (n, st')"
    and "hash st (chs, of_nat (length (covers st))) = None"
  shows "n = length (nodes st)"
    and "length (nodes st') = Suc (length (nodes st))"
    and "hash st' = (hash st)((chs, of_nat (length (covers st))) \<mapsto> length (nodes st))"
    and "on_add_calls st' = on_add_calls st @ [length (nodes st)]"
    and "on_modified_calls st' = on_modified_calls st"
    and "outputs st' = outputs st"
    and "children (nodes st' ! length (nodes st)) = chs"
    and "data1_h1 (nodes st' ! length (nodes st)) = of_nat (length (covers st))"
    and "\<And>m. m < length (nodes st) \<Longrightarrow> children (nodes st' ! m) = children (nodes st ! m)"
    and "\<And>m. m < length (nodes st) \<Longrightarrow> data1_h1 (nodes st' ! m) = data1_h1 (nodes st ! m)"
    and "\<And>m. m < length (nodes st) \<Longrightarrow>
           data0_h1 (nodes st' ! m) = data0_h1 (nodes st ! m) + of_nat (count_list chs m)"
proof -
  let ?node = "empty_node\<lparr>children := chs, data1_h1 := of_nat (length (covers st))\<rparr>"
  let ?st2 = "st\<lparr>covers := covers st @ [cv], nodes := nodes st @ [?node],
                 hash := (hash st)((chs, of_nat (length (covers st))) \<mapsto> length (nodes st))\<rparr>"
  let ?st3 = "fold incr_fanout chs ?st2"
  let ?n = "length (nodes st)"
  from assms have range: "list_all (\<lambda>c. c < Suc ?n) chs"
    by (auto simp: create_cover_node_internal_def insert_cover_def node_key_def empty_node_def
        Let_def split: option.splits if_splits)
  from assms range have res:
    "n = ?n" "st' = ?st3\<lparr>nodes := (nodes ?st3)[?n := (nodes ?st3 ! ?n)\<lparr>data0_h2 := 0\<rparr>],
                        on_add_calls := on_add_calls ?st3 @ [?n]\<rparr>"
    by (auto simp: create_cover_node_internal_def insert_cover_def node_key_def empty_node_def
        set_value_def Let_def split: option.splits if_splits)
  show "n = ?n" by (rule res)
  show "length (nodes st') = Suc ?n" using res(2) by simp
  show "hash st' = (hash st)((chs, of_nat (length (covers st))) \<mapsto> ?n)" using res(2) by simp
  show "on_add_calls st' = on_add_calls st @ [?n]" using res(2) by simp
  show "on_modified_calls st' = on_modified_calls st" using res(2) by simp
  show "outputs st' = outputs st" using res(2) by simp
  show "children (nodes st' ! ?n) = chs" using res(2) by (simp add: empty_node_def)
  show "data1_h1 (nodes st' ! ?n) = of_nat (length (covers st))" using res(2) by (simp add: empty_node_def)
  show "children (nodes st' ! m) = children (nodes st ! m)" if "m < ?n" for m
    using res(2) that by (simp add: nth_append)
  show "data1_h1 (nodes st' ! m) = data1_h1 (nodes st ! m)" if "m < ?n" for m
    using res(2) that by (simp add: nth_append)
  show "data0_h1 (nodes st' ! m) = data0_h1 (nodes st ! m) + of_nat (count_list chs m)"
    if "m < ?n" for m
  proof -
    have "\<forall>c\<in>set chs. c < length (nodes ?st2)"
      using range by (simp add: list_all_iff)
    from fold_incr_fanout_data0_h1 [OF this, of m] res(2) that show ?thesis
      by (simp add: nth_append)
  qed
qed

lemma create_cover_node_internal_total:
  assumes "hash st (chs, of_nat (length (covers st))) = None"
    and "\<forall>c\<in>set chs. c < length (nodes st)"
  shows "\<exists>st'. create_cover_node_internal chs cv st = Some (length (nodes st), st')"
proof -
  have "list_all (\<lambda>c. c < Suc (length (nodes st))) chs"
    using assms(2) by (auto simp: list_all_iff)
  with assms(1) show ?thesis
    by (simp add: create_cover_node_internal_def insert_cover_def node_key_def empty_node_def
        set_value_def Let_def)
qed

lemma hash_fresh_no_hit:
  assumes "hash_fresh st" and "chs \<noteq> []" and "length (covers st) < 2 ^ 32"
  shows "hash st (chs, of_nat (length (covers st))) = None"
proof (rule ccontr)
  assume "hash st (chs, of_nat (length (covers st))) \<noteq> None"
  then obtain n where "hash st (chs, of_nat (length (covers st))) = Some n" by auto
  with assms(1,2) have "unat (of_nat (length (covers st)) :: 32 word) < length (covers st)"
    by (auto simp: hash_fresh_def)
  moreover have "unat (of_nat (length (covers st)) :: 32 word) = length (covers st)"
    using assms(3) by (simp add: unat_of_nat)
  ultimately show False by simp
qed

lemma hash_fresh_init: "hash_fresh init"
  by (simp add: hash_fresh_def init_def)

lemma hash_fresh_create_cover_node_internal:
  assumes "create_cover_node_internal chs cv st = Some (n, st')" and "hash_fresh st"
  shows "hash_fresh st'"
proof (cases "hash st (chs, of_nat (length (covers st)))")
  case None
  have le: "unat (of_nat (length (covers st)) :: 32 word) \<le> length (covers st)"
    by (simp add: unat_of_nat)
  have h: "hash st' = (hash st)((chs, of_nat (length (covers st))) \<mapsto> length (nodes st))"
    by (rule create_cover_node_internal_miss(3) [OF assms(1) None])
  have c: "covers st' = covers st @ [cv]"
    by (rule create_cover_node_internal_covers [OF assms(1)])
  show ?thesis
    unfolding hash_fresh_def
  proof (intro allI impI)
    fix chs' ci m
    assume k: "hash st' (chs', ci) = Some m" and ne: "chs' \<noteq> []"
    show "unat ci < length (covers st')"
    proof (cases "(chs', ci) = (chs, of_nat (length (covers st)))")
      case True
      with le c show ?thesis by simp
    next
      case False
      with k h have "hash st (chs', ci) = Some m" by (simp split: if_splits)
      with assms(2) ne have "unat ci < length (covers st)"
        unfolding hash_fresh_def by blast
      with c show ?thesis by simp
    qed
  qed
next
  case (Some m)
  from create_cover_node_internal_hit [OF Some, of cv] assms(1)
  have "st' = st\<lparr>covers := covers st @ [cv]\<rparr>" by simp
  with assms(2) show ?thesis
    unfolding hash_fresh_def by (auto simp: less_Suc_eq)
qed


lemma perform_gate:
  assumes "gate_operands c = Some ops"
  shows "ops \<noteq> [] \<and> (\<exists>cv. \<forall>s. perform c s = create_cover_node_internal ops cv s)"
  using assms
  by (cases c)
    (auto simp: create_not_def create_and_def create_nand_def create_or_def create_nor_def
      create_lt_def create_le_def create_gt_def create_ge_def create_xor_def create_xnor_def
      create_maj_def create_ite_def create_xor3_def)

lemma hash_fresh_frame:
  "hash st' = hash st \<Longrightarrow> covers st' = covers st \<Longrightarrow> hash_fresh st \<Longrightarrow> hash_fresh st'"
  by (simp add: hash_fresh_def)

lemma hash_fresh_create_pi: "hash_fresh st \<Longrightarrow> hash_fresh (snd (create_pi st))"
  by (auto simp: hash_fresh_def create_pi_def insert_cover_def node_key_def empty_node_def
      Let_def less_Suc_eq)

lemma hash_fresh_perform:
  assumes "perform c st = Some (r, st')" and "hash_fresh st"
  shows "hash_fresh st'"
proof (cases "gate_operands c")
  case (Some ops)
  from perform_gate [OF Some] obtain cv where
    "perform c st = create_cover_node_internal ops cv st" by blast
  with assms show ?thesis
    by (auto intro: hash_fresh_create_cover_node_internal)
next
  case None
  show ?thesis
  proof (cases c)
    case Create_pi
    with assms hash_fresh_create_pi [of st] show ?thesis by auto
  next
    case (Create_po f)
    with assms show ?thesis
      by (auto simp: create_po_def Let_def split: if_splits intro!: hash_fresh_frame [of _ st])
  next
    case Create_ro
    with assms show ?thesis
      by (auto simp: create_ro_def Let_def intro!: hash_fresh_frame [of _ st])
  next
    case (Create_ri f reset)
    with assms show ?thesis
      by (auto simp: create_ri_def Let_def split: if_splits intro!: hash_fresh_frame [of _ st])
  next
    case (Create_cover_node chs cubes polarity)
    with assms show ?thesis
      by (auto simp: create_cover_node_def split: if_splits
          intro: hash_fresh_create_cover_node_internal)
  next
    case (Substitute_node old new)
    with assms obtain "substitute_node old new st = Some st'" by auto
    from substitute_node_frame [OF this] assms(2) show ?thesis
      by (auto intro: hash_fresh_frame)
  next
    case Clear_values
    with assms show ?thesis by (auto simp: clear_values_def intro!: hash_fresh_frame [of _ st])
  next
    case (Set_value n v)
    with assms show ?thesis
      by (auto simp: set_value_def split: if_splits intro!: hash_fresh_frame [of _ st])
  next
    case (Incr_value n)
    with assms show ?thesis
      by (auto simp: incr_value_def split: if_splits intro!: hash_fresh_frame [of _ st])
  next
    case (Decr_value n)
    with assms show ?thesis
      by (auto simp: decr_value_def split: if_splits intro!: hash_fresh_frame [of _ st])
  next
    case Clear_visited
    with assms show ?thesis by (auto simp: clear_visited_def intro!: hash_fresh_frame [of _ st])
  next
    case (Set_visited n v)
    with assms show ?thesis
      by (auto simp: set_visited_def split: if_splits intro!: hash_fresh_frame [of _ st])
  next
    case Incr_trav_id
    with assms show ?thesis by (auto simp: incr_trav_id_def intro!: hash_fresh_frame [of _ st])
  qed (use None in simp_all)
qed

lemma hash_fresh_run:
  "run cs st = Some st' \<Longrightarrow> hash_fresh st \<Longrightarrow> hash_fresh st'"
proof (induction cs arbitrary: st)
  case Nil
  then show ?case by simp
next
  case (Cons c cs)
  then obtain r st1 where p: "perform c st = Some (r, st1)" and rest: "run cs st1 = Some st'"
    by (auto split: option.splits)
  from Cons.IH [OF rest hash_fresh_perform [OF p Cons.prems(2)]] show ?case .
qed

lemma reachable_hash_fresh: "run cs init = Some st \<Longrightarrow> hash_fresh st"
  by (rule hash_fresh_run [OF _ hash_fresh_init])

text \<open>The definitions that evaluate the example networks.\<close>

lemmas build_eval = net_ab_def net_xor_def net_ro_pi_def net_and_po_def net_asym_def
  create_cover_node_def create_cover_node_internal_def insert_cover_def create_pi_def create_ro_def
  create_po_def init_def Let_def node_key_def empty_node_def set_value_def incr_fanout_def
  create_and_def create_xor_def get_constant_def

subsection \<open>The covers of the primitive gates\<close>

















text \<open>A gate built in a state where the lookup misses evaluates by its own cover.\<close>


lemma compute_single_pattern:
  "compute n vals st =
     (case node_cover n st of
        None \<Rightarrow> None
      | Some cv \<Rightarrow> Some (scan_cubes (fst cv) (single_pattern vals) (snd cv)))"
  by (simp add: compute_def single_pattern_def split_beta split: option.splits)

lemma created_node_cover:
  assumes "create_cover_node_internal chs cv st = Some (n, st')"
    and "hash st (chs, of_nat (length (covers st))) = None"
    and "length (covers st) < 2 ^ 32"
  shows "node_cover n st' = Some cv"
proof -
  note m = create_cover_node_internal_miss [OF assms(1,2)]
  have c: "covers st' = covers st @ [cv]"
    by (rule create_cover_node_internal_covers [OF assms(1)])
  have u: "unat (of_nat (length (covers st)) :: 32 word) = length (covers st)"
    using assms(3) by (simp add: unat_of_nat)
  show ?thesis
    using m(1,2,8) c u by (simp add: node_cover_def)
qed

lemma gate_compute:
  assumes "hash_fresh st" and "length (covers st) < 2 ^ 32" and "chs \<noteq> []"
    and "\<forall>c\<in>set chs. c < length (nodes st)"
  shows "\<exists>n st'. create_cover_node_internal chs (cubes, polarity) st = Some (n, st') \<and>
           (\<forall>vals. compute n vals st' = Some (scan_cubes cubes (single_pattern vals) polarity))"
proof -
  have miss: "hash st (chs, of_nat (length (covers st))) = None"
    by (rule hash_fresh_no_hit [OF assms(1,3,2)])
  from create_cover_node_internal_total [OF miss assms(4)] obtain st' where
    c: "create_cover_node_internal chs (cubes, polarity) st = Some (length (nodes st), st')"
    by blast
  from created_node_cover [OF c miss assms(2)] c show ?thesis
    by (simp add: compute_single_pattern)
qed















subsection \<open>Fan-out counters\<close>

lemma gate_added_references:
  "gate_operands c = Some ops \<Longrightarrow>
   added_references c st m = new_node_references ops st m \<and> \<not> substitutes c m"
  by (cases c) auto

lemma create_cover_node_internal_fanout:
  assumes "create_cover_node_internal chs cv st = Some (n, st')" and "m < length (nodes st)"
  shows "m < length (nodes st') \<and>
         data0_h1 (nodes st' ! m) = data0_h1 (nodes st ! m) + of_nat (new_node_references chs st m)"
proof (cases "hash st (chs, of_nat (length (covers st)))")
  case None
  note p = create_cover_node_internal_miss [OF assms(1) None]
  from p(2) p(11) [OF assms(2)] assms(2) None show ?thesis
    by (simp add: new_node_references_def)
next
  case (Some k)
  from create_cover_node_internal_hit [OF Some, of cv] assms Some show ?thesis
    by (simp add: new_node_references_def)
qed

lemma perform_fanout:
  assumes "perform c st = Some (r, st')" and "m < length (nodes st)"
  shows "m < length (nodes st') \<and>
         data0_h1 (nodes st' ! m) =
           (if substitutes c m then 0
            else data0_h1 (nodes st ! m) + of_nat (added_references c st m))"
proof (cases "gate_operands c")
  case (Some ops)
  from perform_gate [OF Some] obtain cv where
    "perform c st = create_cover_node_internal ops cv st" by blast
  with assms(1) have "create_cover_node_internal ops cv st = Some (r, st')" by simp
  from create_cover_node_internal_fanout [OF this assms(2)] gate_added_references [OF Some]
  show ?thesis by simp
next
  case None
  show ?thesis
  proof (cases c)
    case Create_pi
    with assms show ?thesis
      by (auto simp: create_pi_def insert_cover_def Let_def nth_append)
  next
    case (Create_po f)
    with assms show ?thesis
      by (auto simp: create_po_def Let_def incr_fanout_data0_h1 split: if_splits)
  next
    case Create_ro
    with assms show ?thesis
      by (auto simp: create_ro_def Let_def nth_append nth_list_update)
  next
    case (Create_ri f reset)
    with assms show ?thesis
      by (auto simp: create_ri_def Let_def incr_fanout_data0_h1 split: if_splits)
  next
    case (Create_cover_node chs cubes polarity)
    show ?thesis
    proof (cases "chs = []")
      case True
      with Create_cover_node assms show ?thesis
        by (auto simp: create_cover_node_def)
    next
      case False
      with Create_cover_node assms have
        "create_cover_node_internal chs (cubes, polarity) st = Some (r, st')"
        by (simp add: create_cover_node_def)
      from create_cover_node_internal_fanout [OF this assms(2)] False Create_cover_node
      show ?thesis by simp
    qed
  next
    case (Substitute_node old new)
    with assms have s: "substitute_node old new st = Some st'" by auto
    from substitute_node_fanout [OF s assms(2)] substitute_node_frame [OF s] assms(2)
      Substitute_node
    show ?thesis by simp
  next
    case Clear_values
    with assms show ?thesis by (auto simp: clear_values_def)
  next
    case (Set_value n v)
    with assms show ?thesis
      by (auto simp: set_value_def nth_list_update split: if_splits)
  next
    case (Incr_value n)
    with assms show ?thesis
      by (auto simp: incr_value_def nth_list_update split: if_splits)
  next
    case (Decr_value n)
    with assms show ?thesis
      by (auto simp: decr_value_def nth_list_update split: if_splits)
  next
    case Clear_visited
    with assms show ?thesis by (auto simp: clear_visited_def)
  next
    case (Set_visited n v)
    with assms show ?thesis
      by (auto simp: set_visited_def nth_list_update split: if_splits)
  next
    case Incr_trav_id
    with assms show ?thesis by (auto simp: incr_trav_id_def)
  qed (use None in simp_all)
qed

lemma word_le_add_no_overflow:
  fixes u :: "32 word"
  assumes "unat u + k < 2 ^ 32"
  shows "u \<le> u + of_nat k"
proof -
  have k: "unat (of_nat k :: 32 word) = k"
    using assms by (simp add: unat_of_nat)
  have "unat (u + of_nat k) = unat u + unat (of_nat k :: 32 word)"
    using assms k by (simp add: unat_add_lem [THEN iffD1])
  then show ?thesis
    by (simp add: word_le_nat_alt)
qed

lemma run_create_po_replicate:
  "0 < length (nodes st) \<Longrightarrow>
   \<exists>st'. run (replicate n (Create_po 0)) st = Some st' \<and>
         length (nodes st') = length (nodes st) \<and>
         data0_h1 (nodes st' ! 0) = data0_h1 (nodes st ! 0) + of_nat n"
proof (induction n arbitrary: st)
  case 0
  then show ?case by simp
next
  case (Suc n)
  obtain r st1 where p: "create_po 0 st = Some (r, st1)"
    and l: "length (nodes st1) = length (nodes st)"
    and d: "data0_h1 (nodes st1 ! 0) = data0_h1 (nodes st ! 0) + 1"
    using Suc.prems by (simp add: create_po_def Let_def incr_fanout_data0_h1)
  have step: "run (replicate (Suc n) (Create_po 0)) st = run (replicate n (Create_po 0)) st1"
    using p by simp
  from Suc.prems l have "0 < length (nodes st1)" by simp
  from Suc.IH [OF this] obtain st' where
    "run (replicate n (Create_po 0)) st1 = Some st'"
    "length (nodes st') = length (nodes st1)"
    "data0_h1 (nodes st' ! 0) = data0_h1 (nodes st1 ! 0) + of_nat n"
    by blast
  with step l d show ?case by (simp add: add.assoc add.commute)
qed

subsection \<open>Covers built from truth tables\<close>

text \<open>With 32 fanins and a full table the enumeration never leaves its loop.\<close>

lemma enumerate_cubes_some_below_32:
  assumes "enumerate_cubes k tt is_sop msk i acc = Some y"
  shows "\<not> (k = 32 \<and> length tt = 2 ^ 32)"
proof (rule enumerate_cubes.raw_induct
    [where P = "\<lambda>k tt is_sop msk i acc y. \<not> (k = 32 \<and> length tt = 2 ^ 32)", OF _ assms])
  fix enum :: "nat \<Rightarrow> bool list \<Rightarrow> bool \<Rightarrow> 32 word \<Rightarrow> 32 word \<Rightarrow> cube list \<Rightarrow> cube list option option"
    and k tt is_sop msk i acc y
  assume ih: "\<And>k tt is_sop msk i acc y.
      enum k tt is_sop msk i acc = Some y \<Longrightarrow> \<not> (k = 32 \<and> length tt = 2 ^ 32)"
    and step: "(if unat i < 2 ^ k
        then if unat i < length tt
             then enum k tt is_sop msk (i + 1)
                    (if tt ! unat i = is_sop then acc @ [mk_cube i msk] else acc)
             else Some None
        else Some (Some acc)) = Some y"
  show "\<not> (k = 32 \<and> length tt = 2 ^ 32)"
  proof
    assume a: "k = 32 \<and> length tt = 2 ^ 32"
    have "unat i < 2 ^ 32" using unsigned_less [of i] by simp
    with a step have
      "enum k tt is_sop msk (i + 1)
         (if tt ! unat i = is_sop then acc @ [mk_cube i msk] else acc) = Some y"
      by simp
    from ih [OF this] a show False by simp
  qed
qed

lemma enumerate_cubes_never_returns:
  "length function = 2 ^ 32 \<Longrightarrow> enumerate_cubes 32 function is_sop msk i acc = None"
  using enumerate_cubes_some_below_32 [of 32 "function" is_sop msk i acc]
  by (cases "enumerate_cubes 32 function is_sop msk i acc") auto

text \<open>
  Below 32 fanins the enumeration returns one fully specified cube for every table index
  whose bit equals the chosen polarity, and a round trip through the single-assignment
  \<^verbatim>\<open>compute\<close> reads the table back.
\<close>

lemma fanin_mask_eq: "fanin_mask (Suc n) = mask (Suc n)"
proof (induction n)
  case 0
  then show ?case by (simp add: fanin_mask_def)
next
  case (Suc n)
  have "fanin_mask (Suc (Suc n)) = fanin_mask (Suc n) OR push_bit 1 (fanin_mask (Suc n))"
    by (simp add: fanin_mask_def)
  also have "\<dots> = mask (Suc n) OR push_bit 1 (mask (Suc n) :: 32 word)"
    by (simp only: Suc.IH)
  also have "\<dots> = mask (Suc (Suc n))"
  proof (rule bit_eqI)
    fix i
    assume "possible_bit TYPE(32 word) i"
    then have i: "i < 32" by simp
    have "bit (mask (Suc n) OR push_bit 1 (mask (Suc n) :: 32 word)) i \<longleftrightarrow>
            i < 32 \<and> (i < Suc n \<or> (1 \<le> i \<and> i - 1 < Suc n))"
      unfolding bit_or_iff bit_push_bit_iff bit_mask_iff using i by auto
    also have "\<dots> \<longleftrightarrow> i < 32 \<and> i < Suc (Suc n)"
      by auto
    also have "\<dots> \<longleftrightarrow> bit (mask (Suc (Suc n)) :: 32 word) i"
      unfolding bit_mask_iff by simp
    finally show "bit (mask (Suc n) OR push_bit 1 (mask (Suc n) :: 32 word)) i \<longleftrightarrow>
        bit (mask (Suc (Suc n)) :: 32 word) i" .
  qed
  finally show ?case .
qed

lemma unat_shift_in:
  fixes w :: "32 word"
  assumes "unat w < 2 ^ 31"
  shows "unat (push_bit 1 w XOR (if b then 1 else 0)) = 2 * unat w + (if b then 1 else 0)"
proof -
  have d: "unat (push_bit 1 w) = 2 * unat w"
    using assms by (simp add: unat_word_ariths push_bit_eq_mult)
  have e: "even (push_bit 1 w)" by simp
  show ?thesis
  proof (cases b)
    case True
    have "push_bit 1 w XOR 1 = push_bit 1 w + 1"
      using e by (simp add: xor_one_eq)
    moreover have "unat (push_bit 1 w + 1) = unat (push_bit 1 w) + 1"
      using d assms by (simp add: unat_word_ariths)
    ultimately show ?thesis using True d by simp
  next
    case False
    then show ?thesis using d by simp
  qed
qed

lemma fold_values_unat:
  "unat index < 2 ^ a \<Longrightarrow> a + length vals \<le> 32 \<Longrightarrow>
   unat (fst (fold_values vals index msk)) =
     foldl (\<lambda>index b. 2 * index + (if b then 1 else 0)) (unat index) vals \<and>
   unat (fst (fold_values vals index msk)) < 2 ^ (a + length vals)"
proof (induction vals arbitrary: index msk a)
  case Nil
  then show ?case by simp
next
  case (Cons b vals)
  let ?i = "push_bit 1 index XOR (if b then 1 else 0) :: 32 word"
  have "(2::nat) ^ a \<le> 2 ^ 31" using Cons.prems(2) by (intro power_increasing) simp_all
  with Cons.prems(1) have small: "unat index < 2 ^ 31" by simp
  have u: "unat ?i = 2 * unat index + (if b then 1 else 0)"
    by (rule unat_shift_in [OF small])
  have "unat ?i < 2 ^ Suc a" using u Cons.prems(1) by (cases b) simp_all
  from Cons.IH [OF this, of "push_bit 1 msk OR 1"] Cons.prems(2) u show ?case by simp
qed

lemma single_pattern_index:
  assumes "length vals \<le> 32"
  shows "unat (cbits (single_pattern vals)) = index_of_values vals"
    and "unat (cbits (single_pattern vals)) < 2 ^ length vals"
  using fold_values_unat [of 0 0 vals 0] assms
  by (simp_all add: single_pattern_def mk_cube_def index_of_values_def)

lemma enumerate_cubes_returns:
  assumes "k < 32" and "2 ^ k \<le> length tt"
  shows "unat i \<le> 2 ^ k \<Longrightarrow>
         enumerate_cubes k tt is_sop msk i acc =
           Some (Some (acc @ map (\<lambda>j. mk_cube (of_nat j) msk)
                              (filter (\<lambda>j. tt ! j = is_sop) [unat i..<2 ^ k])))"
proof (induction "2 ^ k - unat i" arbitrary: i acc)
  case 0
  then have "unat i = 2 ^ k" by simp
  then show ?case
    by (subst enumerate_cubes.simps) simp
next
  case (Suc d)
  then have lt: "unat i < 2 ^ k" by simp
  have "(2::nat) ^ k \<le> 2 ^ 31" using assms(1) by (intro power_increasing) simp_all
  with lt have "unat i + 1 < 2 ^ 32" by simp
  then have u: "unat (i + 1) = unat i + 1"
    by (simp add: unat_word_ariths)
  have d: "d = 2 ^ k - unat (i + 1)" using Suc.hyps(2) u by simp
  have le: "unat (i + 1) \<le> 2 ^ k" using lt u by simp
  have range: "unat i < length tt" using lt assms(2) by simp
  have upt: "[unat i..<2 ^ k] = unat i # [unat (i + 1)..<2 ^ k]"
    using lt u by (simp add: upt_conv_Cons)
  show ?case
    by (subst enumerate_cubes.simps)
      (simp add: lt range Suc.hyps(1) [OF d le] upt del: upt_Suc)
qed

lemma unat_two_power: "k < 32 \<Longrightarrow> unat (2 ^ k :: 32 word) = 2 ^ k"
proof -
  assume k: "k < 32"
  have "(2::nat) ^ k < 2 ^ 32" using k by (intro power_strict_increasing) simp_all
  then show ?thesis by (intro of_nat_inverse) simp_all
qed

lemma scan_enumerated_cubes:
  fixes idx :: "32 word"
  assumes "k < 32" and "unat idx < 2 ^ k" and "\<forall>j\<in>set js. j < 2 ^ k"
  shows "scan_cubes (map (\<lambda>j. mk_cube (of_nat j) (mask k)) js) (mk_cube idx m) polarity =
           (if unat idx \<in> set js then polarity else \<not> polarity)"
  using assms(3)
proof (induction js)
  case Nil
  then show ?case by simp
next
  case (Cons j js)
  have p: "(2::nat) ^ k \<le> 2 ^ 32" using assms(1) by (intro power_increasing) simp_all
  have j: "j < 2 ^ k" using Cons.prems by simp
  then have uj: "unat (of_nat j :: 32 word) = j" using p by (simp add: unat_of_nat)
  have mj: "(of_nat j :: 32 word) AND mask k = of_nat j"
    using j uj assms(1) by (intro less_mask_eq) (simp add: word_less_nat_alt unat_two_power)
  have mi: "idx AND mask k = idx"
    using assms(1,2) by (intro less_mask_eq) (simp add: word_less_nat_alt unat_two_power)
  have "cube_hit (mk_cube (of_nat j) (mask k)) (mk_cube idx m) \<longleftrightarrow> of_nat j = idx"
    by (simp add: cube_hit_def mk_cube_def mj mi)
  also have "\<dots> \<longleftrightarrow> unat idx = j"
    using uj by (auto simp: word_unat_eq_iff)
  finally have hit: "cube_hit (mk_cube (of_nat j) (mask k)) (mk_cube idx m) \<longleftrightarrow> unat idx = j" .
  from Cons.IH Cons.prems hit show ?case by auto
qed

lemma truth_table_round_trip_below_32:
  assumes "run cs init = Some st" and "length (covers st) < 2 ^ 32"
    and "chs \<noteq> []" and "length chs < 32" and "\<forall>c\<in>set chs. c < length (nodes st)"
    and "length tt = 2 ^ length chs" and "length vals = length chs"
  shows "\<exists>n st'. create_cover_node_tt chs tt st = Some (Some (n, st')) \<and>
           compute n vals st' = Some (tt ! index_of_values vals)"
proof -
  let ?k = "length chs"
  let ?sop = "count_ones tt \<le> count_zeros tt"
  let ?js = "filter (\<lambda>j. tt ! j = ?sop) [0..<2 ^ ?k]"
  let ?cubes = "map (\<lambda>j. mk_cube (of_nat j) (fanin_mask ?k)) ?js"
  obtain k' where k': "?k = Suc k'" using assms(3) by (cases chs) auto
  have msk: "fanin_mask ?k = mask ?k" using fanin_mask_eq [of k'] k' by simp
  have enum: "enumerate_cubes ?k tt ?sop (fanin_mask ?k) 0 [] = Some (Some ?cubes)"
    using enumerate_cubes_returns [OF assms(4), of tt 0 ?sop "fanin_mask ?k" "[]"] assms(6)
    by simp
  have fresh: "hash_fresh st" by (rule reachable_hash_fresh [OF assms(1)])
  from gate_compute [OF fresh assms(2,3,5), of ?cubes ?sop] obtain n st' where
    c: "create_cover_node_internal chs (?cubes, ?sop) st = Some (n, st')" and
    v: "compute n vals st' = Some (scan_cubes ?cubes (single_pattern vals) ?sop)"
    by blast
  have tt: "create_cover_node_tt chs tt st = Some (Some (n, st'))"
    using c enum assms(3) by (simp add: create_cover_node_tt_def Let_def)
  have len: "length vals \<le> 32" using assms(4,7) by simp
  note idx = single_pattern_index [OF len]
  have bound: "unat (cbits (single_pattern vals)) < 2 ^ ?k" using idx(2) assms(7) by simp
  have sp: "single_pattern vals = mk_cube (cbits (single_pattern vals)) (cmask (single_pattern vals))"
    by (simp add: mk_cube_def)
  have "scan_cubes ?cubes (single_pattern vals) ?sop =
          (if unat (cbits (single_pattern vals)) \<in> set ?js then ?sop else \<not> ?sop)"
    unfolding msk
    by (subst sp, rule scan_enumerated_cubes) (use assms(4) bound in auto)
  also have "\<dots> = tt ! index_of_values vals"
    using bound idx(1) by auto
  finally show ?thesis using tt v by auto
qed


subsection \<open>N-ary builders on short lists\<close>

text \<open>
  C9: \<^verbatim>\<open>create_nary_and\<close> on the empty list returns the true constant, \<^verbatim>\<open>create_nary_or\<close>
  and \<^verbatim>\<open>create_nary_xor\<close> on the empty list return the false constant, and on a
  one-element list each of the three returns the element and leaves the storage as it
  was, so no node is created.
\<close>

theorem nary_empty_and_single:
  "create_nary_and [] st = Some (get_constant True, st) \<and>
   create_nary_or [] st = Some (get_constant False, st) \<and>
   create_nary_xor [] st = Some (get_constant False, st) \<and>
   create_nary_and [x] st = Some (x, st) \<and>
   create_nary_or [x] st = Some (x, st) \<and>
   create_nary_xor [x] st = Some (x, st)"
  by (simp add: create_nary_and_def create_nary_or_def create_nary_xor_def)

subsection \<open>Cover references\<close>

text \<open>
  C8: in every state reachable through the construction interface every node's cover
  reference should index the cover table. On a fresh network \<^verbatim>\<open>create_ro\<close> returns node 2
  whose cover reference is 2 while the cover table still has two entries, so
  \<^verbatim>\<open>node_cover\<close> of that node reads beyond the table.
\<close>

theorem create_ro_cover_reference_invalid:
  "run [Create_ro] init = Some (snd (create_ro init)) \<and>
   fst (create_ro init) = 2 \<and>
   size_ntk (snd (create_ro init)) = 3 \<and>
   data1_h1 (nodes (snd (create_ro init)) ! 2) = 2 \<and>
   length (covers (snd (create_ro init))) = 2 \<and>
   node_cover 2 (snd (create_ro init)) = None"
  by (simp add: create_ro_def init_def node_cover_def size_ntk_def empty_node_def)

subsection \<open>The two evaluation modes\<close>

text \<open>
  C4: bit \<open>i\<close> of the vectorized result should be the single-assignment result on the
  \<open>i\<close>-th bits of the vectors in fanin order. For node 4 of \<open>net_asym\<close>, fanins 2 and 3,
  the single-assignment mode on the values 0, 1 returns true, and the vectorized mode on
  the one-bit vectors 0 and 1 returns the bit false: the first mode puts the first
  fanin at the most significant bit of the pattern, the second at bit 0.
\<close>

theorem compute_modes_disagree:
  "run [Create_pi, Create_pi, Create_cover_node [2, 3] [mk_cube 1 3] True] init = Some net_asym \<and>
   children (nodes net_asym ! 4) = [2, 3] \<and>
   compute 4 [False, True] net_asym = Some True \<and>
   compute_tt 4 [[False], [True]] net_asym = Some [False]"
  by (simp add: net_asym_def net_ab_def create_cover_node_def create_cover_node_internal_def
      insert_cover_def create_pi_def init_def Let_def node_key_def empty_node_def set_value_def
      incr_fanout_def compute_def compute_tt_def node_cover_def mk_cube_def cube_hit_def
      result_bit_def get_constant_def)

subsection \<open>Hash-consing\<close>

text \<open>
  C1, as the code has it: in a state reached from a fresh network by calls of the
  interface, with room for two more covers below \<open>2 ^ 32\<close>, a primitive-gate builder
  called twice with the same operand signals, all of them nodes of the network, returns
  the next free node id the first time and the id after it the second time; each of the
  two calls appends one node and calls the \<^verbatim>\<open>on_add\<close> listeners with the id it returns.
\<close>

theorem gate_builder_second_call_new_node:
  assumes "run cs init = Some st" and "gate_operands c = Some ops"
    and "\<forall>a\<in>set ops. a < length (nodes st)" and "Suc (length (covers st)) < 2 ^ 32"
  shows "\<exists>st1 st2.
           perform c st = Some (length (nodes st), st1) \<and>
           perform c st1 = Some (Suc (length (nodes st)), st2) \<and>
           length (nodes st1) = Suc (length (nodes st)) \<and>
           length (nodes st2) = Suc (Suc (length (nodes st))) \<and>
           on_add_calls st1 = on_add_calls st @ [length (nodes st)] \<and>
           on_add_calls st2 = on_add_calls st1 @ [Suc (length (nodes st))]"
proof -
  from perform_gate [OF assms(2)] obtain cv where
    ne: "ops \<noteq> []" and p: "\<And>s. perform c s = create_cover_node_internal ops cv s"
    by blast
  have fresh: "hash_fresh st" by (rule reachable_hash_fresh [OF assms(1)])
  have miss: "hash st (ops, of_nat (length (covers st))) = None"
    using hash_fresh_no_hit [OF fresh ne] assms(4) by simp
  from create_cover_node_internal_total [OF miss assms(3)] obtain st1 where
    c1: "create_cover_node_internal ops cv st = Some (length (nodes st), st1)" by blast
  note m1 = create_cover_node_internal_miss [OF c1 miss]
  have cov1: "covers st1 = covers st @ [cv]"
    by (rule create_cover_node_internal_covers [OF c1])
  have fresh1: "hash_fresh st1"
    by (rule hash_fresh_create_cover_node_internal [OF c1 fresh])
  have miss1: "hash st1 (ops, of_nat (length (covers st1))) = None"
    using hash_fresh_no_hit [OF fresh1 ne] assms(4) cov1 by simp
  have "\<forall>a\<in>set ops. a < length (nodes st1)"
    using assms(3) m1(2) by auto
  from create_cover_node_internal_total [OF miss1 this] obtain st2 where
    c2: "create_cover_node_internal ops cv st1 = Some (length (nodes st1), st2)" by blast
  note m2 = create_cover_node_internal_miss [OF c2 miss1]
  show ?thesis
    using c1 c2 m1(2,4) m2(2,4) p by simp
qed

theorem gate_builder_second_call_new_node_witness:
  "run [Create_pi, Create_pi] init = Some net_ab \<and>
   gate_operands (Create_and 2 3) = Some [2, 3] \<and>
   (\<exists>st1 st2.
      perform (Create_and 2 3) net_ab = Some (4, st1) \<and>
      perform (Create_and 2 3) st1 = Some (5, st2) \<and>
      length (nodes st1) = 5 \<and> length (nodes st2) = 6 \<and>
      on_add_calls st1 = [4] \<and> on_add_calls st2 = [4, 5])"
proof -
  have r: "run [Create_pi, Create_pi] init = Some net_ab"
    by (simp add: net_ab_def split_beta)
  have g: "gate_operands (Create_and 2 3) = Some [2, 3]" by simp
  have n: "length (nodes net_ab) = 4" and c: "length (covers net_ab) = 4"
    and a: "on_add_calls net_ab = []"
    by (simp_all add: build_eval)
  have o: "\<forall>a\<in>set [2, 3]. a < length (nodes net_ab)" using n by simp
  have l: "Suc (length (covers net_ab)) < 2 ^ 32" using c by simp
  from gate_builder_second_call_new_node [OF r g o l] obtain st1 st2 where
    "perform (Create_and 2 3) net_ab = Some (length (nodes net_ab), st1)"
    "perform (Create_and 2 3) st1 = Some (Suc (length (nodes net_ab)), st2)"
    "length (nodes st1) = Suc (length (nodes net_ab))"
    "length (nodes st2) = Suc (Suc (length (nodes net_ab)))"
    "on_add_calls st1 = on_add_calls net_ab @ [length (nodes net_ab)]"
    "on_add_calls st2 = on_add_calls st1 @ [Suc (length (nodes net_ab))]"
    by blast
  then have "perform (Create_and 2 3) net_ab = Some (4, st1) \<and>
      perform (Create_and 2 3) st1 = Some (5, st2) \<and>
      length (nodes st1) = 5 \<and> length (nodes st2) = 6 \<and>
      on_add_calls st1 = [4] \<and> on_add_calls st2 = [4, 5]"
    using n a by simp
  then show ?thesis
    using r g by blast
qed

text \<open>
  C1 as stated fails: on the network with the two inputs 2 and 3, \<^verbatim>\<open>create_and(2, 3)\<close>
  returns 4 and the same call again returns 5, with a sixth node in the arena and a
  second \<^verbatim>\<open>on_add\<close> call.
\<close>

theorem second_and_returns_new_node:
  "map_option fst (create_and 2 3 net_ab) = Some 4 \<and>
   map_option fst (create_and 2 3 (snd (the (create_and 2 3 net_ab)))) = Some 5 \<and>
   size_ntk (snd (the (create_and 2 3 net_ab))) = 5 \<and>
   size_ntk (snd (the (create_and 2 3 (snd (the (create_and 2 3 net_ab)))))) = 6 \<and>
   on_add_calls (snd (the (create_and 2 3 (snd (the (create_and 2 3 net_ab)))))) = [4, 5]"
  by (simp add: build_eval size_ntk_def)




subsection \<open>Truth tables of the primitive gates\<close>



subsection \<open>Node substitution\<close>

text \<open>
  C5: for distinct \<open>old_node\<close> and \<open>new_signal\<close>, whenever \<^verbatim>\<open>substitute_node\<close> has completed,
  no child list and no output contains \<open>old_node\<close>, its fan-out is 0, and it is still a
  node of the arena, which has kept its size, with its cover reference and the cover
  table untouched. The call does complete when both are nodes of an arena of fewer than
  \<open>2 ^ 32\<close> nodes.
\<close>

theorem substitute_node_removes_old:
  assumes "old_node \<noteq> new_signal"
  shows "(old_node < length (nodes st) \<and> new_signal < length (nodes st) \<and>
          length (nodes st) < 2 ^ 32 \<longrightarrow>
            (\<exists>st'. substitute_node old_node new_signal st = Some st')) \<and>
         (\<forall>st'. substitute_node old_node new_signal st = Some st' \<longrightarrow>
            (\<forall>m<length (nodes st'). old_node \<notin> set (children (nodes st' ! m))) \<and>
            old_node \<notin> set (outputs st') \<and>
            fanout_size old_node st' = Some 0 \<and>
            length (nodes st') = length (nodes st) \<and>
            data1_h1 (nodes st' ! old_node) = data1_h1 (nodes st ! old_node) \<and>
            covers st' = covers st)"
proof -
  have total: "\<exists>st'. substitute_node old_node new_signal st = Some st'"
    if "old_node < length (nodes st) \<and> new_signal < length (nodes st) \<and>
        length (nodes st) < 2 ^ 32"
    using that by (intro substitute_node_total) simp_all
  have after: "(\<forall>m<length (nodes st'). old_node \<notin> set (children (nodes st' ! m))) \<and>
      old_node \<notin> set (outputs st') \<and>
      fanout_size old_node st' = Some 0 \<and>
      length (nodes st') = length (nodes st) \<and>
      data1_h1 (nodes st' ! old_node) = data1_h1 (nodes st ! old_node) \<and>
      covers st' = covers st"
    if s: "substitute_node old_node new_signal st = Some st'" for st'
  proof -
    note f = substitute_node_frame [OF s]
    have len: "length (nodes st') = length (nodes st)" using f by simp
    have old: "old_node < length (nodes st)" using f by simp
    have ch: "\<forall>m<length (nodes st'). old_node \<notin> set (children (nodes st' ! m))"
      using substitute_node_children [OF s] assms len by (auto simp: subst_signal_def)
    have out: "old_node \<notin> set (outputs st')"
      using substitute_node_outputs [OF s] assms by (auto simp: subst_signal_def)
    have fo: "fanout_size old_node st' = Some 0"
      using substitute_node_fanout [OF s old] old len by (simp add: fanout_size_def)
    from ch out fo len substitute_node_data1_h1 [OF s] f show ?thesis by blast
  qed
  from total after show ?thesis by blast
qed

theorem substitute_node_removes_old_witness:
  "(2::nat) \<noteq> 3 \<and> 2 < length (nodes net_and_po) \<and> 3 < length (nodes net_and_po) \<and>
   length (nodes net_and_po) < 2 ^ 32 \<and>
   children (nodes net_and_po ! 4) = [2, 3] \<and> outputs net_and_po = [4] \<and>
   (\<exists>st'. substitute_node 2 3 net_and_po = Some st' \<and>
      (\<forall>m<length (nodes st'). 2 \<notin> set (children (nodes st' ! m))) \<and>
      2 \<notin> set (outputs st') \<and>
      fanout_size 2 st' = Some 0 \<and>
      length (nodes st') = length (nodes net_and_po) \<and>
      data1_h1 (nodes st' ! 2) = data1_h1 (nodes net_and_po ! 2) \<and>
      covers st' = covers net_and_po)"
proof -
  have n: "length (nodes net_and_po) = 5" by (simp add: build_eval)
  have d: "(2::nat) \<noteq> 3" by simp
  have a: "2 < length (nodes net_and_po)" and b: "3 < length (nodes net_and_po)"
    and l: "length (nodes net_and_po) < 2 ^ 32"
    using n by simp_all
  have c: "children (nodes net_and_po ! 4) = [2, 3]" and o: "outputs net_and_po = [4]"
    by (simp_all add: build_eval)
  from substitute_node_removes_old [OF d, of net_and_po] a b l obtain st' where
    s: "substitute_node 2 3 net_and_po = Some st'" by blast
  with substitute_node_removes_old [OF d, of net_and_po] have
    "(\<forall>m<length (nodes st'). 2 \<notin> set (children (nodes st' ! m))) \<and>
      2 \<notin> set (outputs st') \<and>
      fanout_size 2 st' = Some 0 \<and>
      length (nodes st') = length (nodes net_and_po) \<and>
      data1_h1 (nodes st' ! 2) = data1_h1 (nodes net_and_po ! 2) \<and>
      covers st' = covers net_and_po"
    by blast
  with s d a b l c o show ?thesis by blast
qed

text \<open>
  C7, as the code has it: during \<^verbatim>\<open>substitute_node\<close> the \<^verbatim>\<open>on_modified\<close> listeners are called
  for the nodes in arena order, and for a node once for every child reference equal to
  \<open>old_node\<close>, in child order, with the node's id and the child list as it is just before
  that reference is rewritten, the earlier ones already replaced by \<open>new_signal\<close>. So the
  calls for a node are as many as its references to \<open>old_node\<close>, the first of them carries
  the child list from before the run, and no other call is made.
\<close>

theorem substitute_node_notifies_per_reference:
  assumes "substitute_node old_node new_signal st = Some st'"
  shows "on_modified_calls st' =
           on_modified_calls st @
             concat (map (\<lambda>m. modified_calls_of old_node new_signal m (children (nodes st ! m)))
                       [0..<length (nodes st)]) \<and>
         (\<forall>m chs. length (modified_calls_of old_node new_signal m chs) = count_list chs old_node) \<and>
         (\<forall>m chs. old_node \<in> set chs \<longrightarrow>
            hd (modified_calls_of old_node new_signal m chs) = (m, chs))"
proof -
  have l: "length (modified_calls_of old_node new_signal m chs) = count_list chs old_node"
    for m chs
    by (simp add: modified_calls_of_snapshots snapshots_length)
  have h: "hd (modified_calls_of old_node new_signal m chs) = (m, chs)"
    if "old_node \<in> set chs" for m chs
  proof -
    have "snapshots old_node new_signal [] chs \<noteq> []"
      using that snapshots_length [of old_node new_signal "[]" chs]
      by (auto simp: count_list_0_iff)
    then show ?thesis
      using snapshots_first [OF that, of new_signal "[]"]
      by (simp add: modified_calls_of_snapshots hd_map)
  qed
  from substitute_node_calls_exact [OF assms] l h show ?thesis by blast
qed

theorem substitute_node_notifies_per_reference_witness:
  "substitute_node 2 3 net_and_same = Some (the (substitute_node 2 3 net_and_same)) \<and>
   children (nodes net_and_same ! 4) = [2, 2] \<and>
   on_modified_calls net_and_same = [] \<and>
   modified_calls_of 2 3 4 [2, 2] = [(4, [2, 2]), (4, [3, 2])] \<and>
   on_modified_calls (the (substitute_node 2 3 net_and_same)) = modified_calls_of 2 3 4 [2, 2]"
proof -
  have n: "length (nodes net_and_same) = 5" by (simp add: net_and_same_def build_eval)
  have "\<exists>st'. substitute_node 2 3 net_and_same = Some st'"
    by (rule substitute_node_total) (simp_all add: n)
  then have s: "substitute_node 2 3 net_and_same = Some (the (substitute_node 2 3 net_and_same))"
    by auto
  have c: "children (nodes net_and_same ! 0) = []" "children (nodes net_and_same ! 1) = []"
    "children (nodes net_and_same ! 2) = []" "children (nodes net_and_same ! 3) = []"
    "children (nodes net_and_same ! 4) = [2, 2]"
    and o: "on_modified_calls net_and_same = []"
    by (simp_all add: net_and_same_def build_eval)
  have five: "[0..<5] = [0, 1, 2, 3, 4]" by (simp add: upt_rec)
  have two: "[0..<2] = [0, 1]" by (simp add: upt_rec)
  have m: "modified_calls_of 2 3 4 [2, 2] = [(4, [2, 2]), (4, [3, 2])]"
    by (simp add: two modified_calls_of_def subst_signal_def)
  have e: "modified_calls_of 2 3 k [] = []" for k
    by (simp add: modified_calls_of_def)
  from substitute_node_notifies_per_reference [OF s] have
    "on_modified_calls (the (substitute_node 2 3 net_and_same)) =
       on_modified_calls net_and_same @
         concat (map (\<lambda>m. modified_calls_of 2 3 m (children (nodes net_and_same ! m)))
                   [0..<length (nodes net_and_same)])"
    by blast
  then have "on_modified_calls (the (substitute_node 2 3 net_and_same)) =
      modified_calls_of 2 3 4 [2, 2]"
    using n c o e by (simp add: five)
  with s c o m show ?thesis by simp
qed

text \<open>
  C7 as stated fails for a node with two children equal to \<open>old_node\<close>: node 4 of
  \<open>net_and_same\<close> has the children 2, 2, and \<^verbatim>\<open>substitute_node(2, 3)\<close> calls the listeners
  with (4, [2, 2]) and then with (4, [3, 2]), a list whose first reference is already
  rewritten.
\<close>

theorem substitute_node_calls_per_reference:
  "run [Create_pi, Create_pi, Create_and 2 2] init = Some net_and_same \<and>
   children (nodes net_and_same ! 4) = [2, 2] \<and>
   on_modified_calls net_and_same = [] \<and>
   on_modified_calls (the (substitute_node 2 3 net_and_same)) = [(4, [2, 2]), (4, [3, 2])]"
proof -
  have five: "5 = Suc (Suc (Suc (Suc (Suc 0))))" by simp
  have r: "run [Create_pi, Create_pi, Create_and 2 2] init = Some net_and_same"
    by (simp add: net_and_same_def build_eval split_beta)
  have c: "children (nodes net_and_same ! 4) = [2, 2]" "on_modified_calls net_and_same = []"
    by (simp_all add: net_and_same_def build_eval)
  have "on_modified_calls (the (substitute_node 2 3 net_and_same)) = [(4, [2, 2]), (4, [3, 2])]"
    by (simp add: net_and_same_def build_eval substitute_node_def five)
  with r c show ?thesis by simp
qed

subsection \<open>Fan-out counters under the interface\<close>

text \<open>
  C10, as the code has it: a call changes the fan-out of a node \<open>m\<close> only by adding, in
  32-bit arithmetic, the number of references to \<open>m\<close> that the call creates, except that
  \<^verbatim>\<open>substitute_node(m, s)\<close> sets it to 0. Creating an output or register input adds one
  to the node it names, an appended node adds one to each child per occurrence, the
  replacement of a substitution receives the uses of the replaced node, and every other
  call (values, visited flags, traversal id, inputs) adds nothing. So the fan-out does
  not decrease as long as the sum stays below \<open>2 ^ 32\<close>.
\<close>

theorem fanout_only_incremented:
  assumes "perform c st = Some (r, st')" and "fanout_size m st = Some u"
  shows "fanout_size m st' =
           Some (if substitutes c m then 0 else u + of_nat (added_references c st m)) \<and>
         (\<not> substitutes c m \<and> unat u + added_references c st m < 2 ^ 32 \<longrightarrow>
            (\<exists>v. fanout_size m st' = Some v \<and> u \<le> v))"
proof -
  from assms(2) have m: "m < length (nodes st)" and u: "u = data0_h1 (nodes st ! m)"
    by (auto simp: fanout_size_def split: if_splits)
  from perform_fanout [OF assms(1) m] u have
    f: "fanout_size m st' =
          Some (if substitutes c m then 0 else u + of_nat (added_references c st m))"
    by (simp add: fanout_size_def)
  with word_le_add_no_overflow [of u "added_references c st m"] show ?thesis by auto
qed

theorem fanout_only_incremented_witness:
  "perform (Create_po 2) net_ab = Some (0, snd (the (create_po 2 net_ab))) \<and>
   fanout_size 2 net_ab = Some 0 \<and>
   fanout_size 2 (snd (the (create_po 2 net_ab))) = Some 1"
proof -
  have p: "perform (Create_po 2) net_ab = Some (0, snd (the (create_po 2 net_ab)))"
    by (simp add: build_eval)
  have f: "fanout_size 2 net_ab = Some 0"
    by (simp add: build_eval fanout_size_def)
  from fanout_only_incremented [OF p f] p f show ?thesis by simp
qed

text \<open>
  C10 as stated fails where the counter wraps: after \<open>2 ^ 32 - 1\<close> calls of
  \<^verbatim>\<open>create_po\<close> on the constant 0 its fan-out is \<open>2 ^ 32 - 1\<close>, and one more call makes it 0.
\<close>

theorem fanout_wraps_to_zero:
  "run (replicate 4294967295 (Create_po 0)) init = Some net_many_pos \<and>
   fanout_size 0 net_many_pos = Some 4294967295 \<and>
   fanout_size 0 (snd (the (create_po 0 net_many_pos))) = Some 0"
proof -
  have "0 < length (nodes init)" by (simp add: init_def)
  from run_create_po_replicate [OF this, of 4294967295] obtain st' where
    r: "run (replicate 4294967295 (Create_po 0)) init = Some st'" and
    l: "length (nodes st') = length (nodes init)" and
    d: "data0_h1 (nodes st' ! 0) = data0_h1 (nodes init ! 0) + of_nat 4294967295"
    by blast
  have e: "net_many_pos = st'" using r by (simp add: net_many_pos_def)
  have l': "0 < length (nodes net_many_pos)" using l e by (simp add: init_def)
  have d': "data0_h1 (nodes net_many_pos ! 0) = 4294967295"
    using d e by (simp add: init_def empty_node_def)
  show ?thesis
    using r e l' d' by (simp add: fanout_size_def create_po_def Let_def incr_fanout_data0_h1)
qed

subsection \<open>Round trip through a truth table\<close>

text \<open>
  C3: a node built from a truth table over \<open>k\<close> children should evaluate, on every input
  combination, to the table bit of that combination, for every \<open>k\<close> from 1 to the
  maximum fan-in, which the class declares as 32. With 32 children (here 32 times the
  input 2) and a table of \<open>2 ^ 32\<close> bits (here all false) the truth-table overload of
  \<^verbatim>\<open>create_cover_node\<close> does not return: its 32-bit loop counter is always below \<open>2 ^ 32\<close>.
\<close>

theorem truth_table_builder_never_returns_at_32:
  "length (replicate 32 (2::nat)) = 32 \<and>
   length (replicate (2 ^ 32) False) = 2 ^ 32 \<and>
   create_cover_node_tt (replicate 32 2) (replicate (2 ^ 32) False) net_ab = None"
  by (simp add: create_cover_node_tt_def enumerate_cubes_never_returns)

end
